theory Spec2Isabelle
  imports Complex_Main "HOL-Library.Log_Nat" "HOL-Library.Sublist"
begin

section \<open>Python values used by the tornado-likelihood script\<close>

text \<open>
  The script \<^verbatim>\<open>Joplin_tornados.py\<close> computes with Python integers (unbounded, modelled by
  \<^typ>\<open>int\<close>), Python floats (IEEE binary64, modelled below by exact rationals that are
  rounded after every operation), text and decoded JSON.  Exceptions are values of
  \<open>py_error\<close>; a function that can raise returns \<open>py_error + 'a\<close>.
\<close>

datatype py_error = TypeError | ValueError | OverflowError | AttributeError | KeyError

definition bind_err :: "'e + 'a \<Rightarrow> ('a \<Rightarrow> 'e + 'b) \<Rightarrow> 'e + 'b" where
  "bind_err m f = (case m of Inl e \<Rightarrow> Inl e | Inr x \<Rightarrow> f x)"

subsection \<open>Binary64 floats\<close>

text \<open>
  A float is a finite binary64 value (kept as the rational it denotes), an infinity or a
  NaN.  The two zeros are not told apart: Python compares them equal and nothing in the
  script looks at the sign of a zero.
\<close>

datatype pyfloat = Fin rat | PInf | NInf | NaN

definition round_half_even :: "rat \<Rightarrow> int" where
  "round_half_even q =
     (let f = \<lfloor>q\<rfloor>; d = q - of_int f
      in if d < 1 / 2 then f else if 1 / 2 < d then f + 1 else if even f then f else f + 1)"

text \<open>\<open>ilog2 q\<close> is the integer \<open>k\<close> with \<open>2^k \<le> q < 2^(k+1)\<close>, for positive \<open>q\<close>.\<close>

definition ilog2 :: "rat \<Rightarrow> int" where
  "ilog2 q =
     (case quotient_of q of (a, b) \<Rightarrow>
        let d = bitlen a - bitlen b in if 2 powi d \<le> q then d else d - 1)"

text \<open>
  The exponent of the unit in the last place of the binary64 format at \<open>x\<close>: 53 significant
  bits, and never below \<open>2^-1074\<close> (the subnormal range).
\<close>

definition ulp_exp :: "rat \<Rightarrow> int" where
  "ulp_exp x = max (- 1074) (ilog2 \<bar>x\<bar> - 52)"

text \<open>Round to nearest, ties to even, with an unbounded exponent range upwards.\<close>

definition fl :: "rat \<Rightarrow> rat" where
  "fl x = (if x = 0 then 0
           else of_int (round_half_even (x / 2 powi ulp_exp x)) * 2 powi ulp_exp x)"

text \<open>The result of a float operation whose exact value is \<open>x\<close>: overflow gives an infinity.\<close>

definition round64 :: "rat \<Rightarrow> pyfloat" where
  "round64 x =
     (let y = fl x
      in if 2 ^ 1024 \<le> y then PInf else if y \<le> - (2 ^ 1024) then NInf else Fin y)"

text \<open>A float literal of the source text denotes the nearest binary64 value.\<close>

definition float_lit :: "rat \<Rightarrow> pyfloat" where
  "float_lit q = round64 q"

text \<open>
  Conversion of an integer to float, as done when an \<^verbatim>\<open>int\<close> meets a \<^verbatim>\<open>float\<close> in \<^verbatim>\<open>+\<close> or
  \<^verbatim>\<open>*\<close> and by \<^verbatim>\<open>float(n)\<close>: correctly rounded, and \<^verbatim>\<open>OverflowError\<close> when the integer is
  too large for the format.
\<close>

definition float_of_int :: "int \<Rightarrow> py_error + pyfloat" where
  "float_of_int n =
     (let y = fl (of_int n)
      in if 2 ^ 1024 \<le> \<bar>y\<bar> then Inl OverflowError else Inr (Fin y))"

fun fadd :: "pyfloat \<Rightarrow> pyfloat \<Rightarrow> pyfloat" where
  "fadd (Fin a) (Fin b) = round64 (a + b)"
| "fadd NaN _ = NaN"
| "fadd _ NaN = NaN"
| "fadd PInf NInf = NaN"
| "fadd NInf PInf = NaN"
| "fadd PInf _ = PInf"
| "fadd _ PInf = PInf"
| "fadd NInf _ = NInf"
| "fadd _ NInf = NInf"

fun fmul_inf :: "bool \<Rightarrow> pyfloat \<Rightarrow> pyfloat" where
  "fmul_inf pos (Fin a) =
     (if a = 0 then NaN else if (0 < a) = pos then PInf else NInf)"
| "fmul_inf pos PInf = (if pos then PInf else NInf)"
| "fmul_inf pos NInf = (if pos then NInf else PInf)"
| "fmul_inf pos NaN = NaN"

fun fmul :: "pyfloat \<Rightarrow> pyfloat \<Rightarrow> pyfloat" where
  "fmul (Fin a) (Fin b) = round64 (a * b)"
| "fmul NaN _ = NaN"
| "fmul _ NaN = NaN"
| "fmul PInf y = fmul_inf True y"
| "fmul NInf y = fmul_inf False y"
| "fmul x PInf = fmul_inf True x"
| "fmul x NInf = fmul_inf False x"

text \<open>\<^verbatim>\<open>a < b\<close> on floats; every comparison with a NaN is false.\<close>

fun flt :: "pyfloat \<Rightarrow> pyfloat \<Rightarrow> bool" where
  "flt (Fin a) (Fin b) = (a < b)"
| "flt NaN _ = False"
| "flt _ NaN = False"
| "flt _ NInf = False"
| "flt PInf _ = False"
| "flt NInf _ = True"
| "flt _ PInf = True"

text \<open>
  \<^verbatim>\<open>int(x)\<close> of a float truncates toward zero; it raises \<^verbatim>\<open>ValueError\<close> on a NaN and
  \<^verbatim>\<open>OverflowError\<close> on an infinity.
\<close>

definition trunc_rat :: "rat \<Rightarrow> int" where
  "trunc_rat q = (if 0 \<le> q then \<lfloor>q\<rfloor> else \<lceil>q\<rceil>)"

fun int_of_float :: "pyfloat \<Rightarrow> py_error + int" where
  "int_of_float (Fin q) = Inr (trunc_rat q)"
| "int_of_float NaN = Inl ValueError"
| "int_of_float PInf = Inl OverflowError"
| "int_of_float NInf = Inl OverflowError"

text \<open>
  \<^verbatim>\<open>round(x, 1)\<close> of a float: the exact value is rounded to one decimal, ties to even, and
  the decimal is read back as the nearest float; infinities and NaN are returned as they
  are.
\<close>

fun float_round1 :: "pyfloat \<Rightarrow> pyfloat" where
  "float_round1 (Fin q) = round64 (of_int (round_half_even (q * 10)) / 10)"
| "float_round1 x = x"

subsection \<open>Numbers: int or float\<close>

datatype pynum = PyInt int | PyFloat pyfloat

fun to_float :: "pynum \<Rightarrow> py_error + pyfloat" where
  "to_float (PyInt n) = float_of_int n"
| "to_float (PyFloat x) = Inr x"

fun num_add :: "pynum \<Rightarrow> pynum \<Rightarrow> py_error + pynum" where
  "num_add (PyInt a) (PyInt b) = Inr (PyInt (a + b))"
| "num_add x y =
     bind_err (to_float x) (\<lambda>a. bind_err (to_float y) (\<lambda>b. Inr (PyFloat (fadd a b))))"

fun num_mul :: "pynum \<Rightarrow> pynum \<Rightarrow> py_error + pynum" where
  "num_mul (PyInt a) (PyInt b) = Inr (PyInt (a * b))"
| "num_mul x y =
     bind_err (to_float x) (\<lambda>a. bind_err (to_float y) (\<lambda>b. Inr (PyFloat (fmul a b))))"

text \<open>Mixed comparisons are exact in Python: the integer is not rounded first.\<close>

fun num_lt :: "pynum \<Rightarrow> pynum \<Rightarrow> bool" where
  "num_lt (PyInt a) (PyInt b) = (a < b)"
| "num_lt (PyFloat x) (PyFloat y) = flt x y"
| "num_lt (PyInt a) (PyFloat y) =
     (case y of Fin q \<Rightarrow> of_int a < q | PInf \<Rightarrow> True | NInf \<Rightarrow> False | NaN \<Rightarrow> False)"
| "num_lt (PyFloat x) (PyInt b) =
     (case x of Fin q \<Rightarrow> q < of_int b | PInf \<Rightarrow> False | NInf \<Rightarrow> True | NaN \<Rightarrow> False)"

text \<open>
  \<^verbatim>\<open>max(a, b)\<close> keeps \<open>a\<close> unless \<^verbatim>\<open>b > a\<close>; \<^verbatim>\<open>min(a, b)\<close> keeps \<open>a\<close> unless \<^verbatim>\<open>b < a\<close>.
\<close>

definition py_max :: "pynum \<Rightarrow> pynum \<Rightarrow> pynum" where
  "py_max a b = (if num_lt a b then b else a)"

definition py_min :: "pynum \<Rightarrow> pynum \<Rightarrow> pynum" where
  "py_min a b = (if num_lt b a then b else a)"

text \<open>\<^verbatim>\<open>round(x, 1)\<close>: an integer is returned unchanged.\<close>

fun py_round1 :: "pynum \<Rightarrow> pynum" where
  "py_round1 (PyInt n) = PyInt n"
| "py_round1 (PyFloat x) = PyFloat (float_round1 x)"

section \<open>Step 5: the likelihood score\<close>

text \<open>
  The dictionaries \<^verbatim>\<open>alerts\<close> and \<^verbatim>\<open>hourly_summary\<close> hold the three keys that
  \<^verbatim>\<open>classify_tornado_alerts\<close> and \<^verbatim>\<open>summarize_hourly\<close> write: they are records, with Boolean
  and integer fields.  The result is a record of the score and the four inputs.
\<close>

record AlertFlags =
  has_watch :: bool
  has_warning :: bool
  has_pds :: bool

record HourlySummary =
  thunder_hours :: int
  max_pop :: int
  max_gust_mph :: int

record ScoreResult =
  score_0_100 :: pynum
  spc_categorical :: "string option"
  spc_prob_tornado_pct :: "int option"
  alerts :: AlertFlags
  hourly_summary :: HourlySummary

definition CAT_WEIGHTS :: "(string option \<times> int) list" where
  "CAT_WEIGHTS =
     [(None, 0), (Some ''TSTM'', 5), (Some ''MRGL'', 15), (Some ''SLGT'', 25),
      (Some ''ENH'', 40), (Some ''MDT'', 60), (Some ''HIGH'', 80)]"

text \<open>\<^verbatim>\<open>CAT_WEIGHTS.get(k, d)\<close>\<close>

definition CAT_WEIGHTS_get :: "string option \<Rightarrow> int \<Rightarrow> int" where
  "CAT_WEIGHTS_get k d = (case map_of CAT_WEIGHTS k of None \<Rightarrow> d | Some w \<Rightarrow> w)"

definition score_likelihood ::
  "string option \<Rightarrow> int option \<Rightarrow> AlertFlags \<Rightarrow> HourlySummary \<Rightarrow> py_error + ScoreResult" where
  "score_likelihood spc_cat spc_prob_tor als hs =
     (let thunder = min (thunder_hours hs) 10;
          pop = max_pop hs;
          max_gust = max_gust_mph hs;
          score = PyInt (CAT_WEIGHTS_get spc_cat 0)
      in
      bind_err (case spc_prob_tor of
                  None \<Rightarrow> Inr score
                | Some p \<Rightarrow> bind_err (num_mul (PyFloat (float_lit (12 / 10))) (PyInt p))
                             (num_add score)) (\<lambda>score.
      bind_err (bind_err (num_mul (PyFloat (float_lit 2)) (PyInt thunder))
                  (num_add score)) (\<lambda>score.
      bind_err (if 35 < max_gust then num_add score (PyInt (min (max_gust - 35) 30))
                else Inr score) (\<lambda>score.
      bind_err (bind_err (num_mul (PyFloat (float_lit (2 / 10))) (PyInt pop))
                  (num_add score)) (\<lambda>score.
      let score = (if has_watch als then py_max score (PyFloat (float_lit 70)) else score);
          score = (if has_warning als then py_max score (PyFloat (float_lit 90)) else score);
          score = (if has_pds als then py_max score (PyFloat (float_lit 98)) else score);
          score = py_max (PyFloat (float_lit 0)) (py_min (PyFloat (float_lit 100)) score)
      in Inr \<lparr> score_0_100 = py_round1 score,
               spc_categorical = spc_cat,
               spc_prob_tornado_pct = spc_prob_tor,
               alerts = als,
               hourly_summary = hs \<rparr>)))))"


subsection \<open>Reading a score\<close>

text \<open>The score of a call, or the exception it raises.\<close>

definition score_of ::
  "string option \<Rightarrow> int option \<Rightarrow> AlertFlags \<Rightarrow> HourlySummary \<Rightarrow> py_error + pynum" where
  "score_of spc_cat spc_prob_tor als hs =
     bind_err (score_likelihood spc_cat spc_prob_tor als hs) (\<lambda>r. Inr (score_0_100 r))"

text \<open>
  The severity tiers in the order the specification gives them,
  \<open>none < TSTM < MRGL < SLGT < ENH < MDT < HIGH\<close>; a label outside the vocabulary has no tier.
\<close>

definition tier_index :: "string option \<Rightarrow> nat option" where
  "tier_index c =
     (if c = None then Some 0 else if c = Some ''TSTM'' then Some 1
      else if c = Some ''MRGL'' then Some 2 else if c = Some ''SLGT'' then Some 3
      else if c = Some ''ENH'' then Some 4 else if c = Some ''MDT'' then Some 5
      else if c = Some ''HIGH'' then Some 6 else None)"

definition tier_le :: "string option \<Rightarrow> string option \<Rightarrow> bool" where
  "tier_le c c' =
     (c = c' \<or> (case (tier_index c, tier_index c') of
                    (Some i, Some j) \<Rightarrow> i \<le> j
                  | _ \<Rightarrow> False))"

text \<open>
  The order on the optional percentage: an absent value is below every non-negative
  present one, and present values are ordered as integers.
\<close>

fun pct_le :: "int option \<Rightarrow> int option \<Rightarrow> bool" where
  "pct_le None None = True"
| "pct_le None (Some q) = (0 \<le> q)"
| "pct_le (Some p) None = False"
| "pct_le (Some p) (Some q) = (p \<le> q)"

text \<open>
  The integers whose conversion to float cannot overflow, and the inputs of
  \<^verbatim>\<open>score_likelihood\<close> all of whose integers are such.
\<close>

definition float_sized :: "int \<Rightarrow> bool" where
  "float_sized n = (\<bar>n\<bar> < 2 ^ 1023)"

definition inputs_float_sized :: "int option \<Rightarrow> HourlySummary \<Rightarrow> bool" where
  "inputs_float_sized spc_prob_tor hs =
     ((case spc_prob_tor of None \<Rightarrow> True | Some p \<Rightarrow> float_sized p) \<and>
      float_sized (thunder_hours hs) \<and> float_sized (max_pop hs))"

subsection \<open>The score as a computation on floats\<close>

text \<open>
  After the thunder term is added the running score is always a float.  The definitions
  below restate the body of \<^verbatim>\<open>score_likelihood\<close> on floats only; lemma
  \<open>score_likelihood_float\<close> proves that they compute what the function computes.
\<close>

definition fmax :: "pyfloat \<Rightarrow> pyfloat \<Rightarrow> pyfloat" where
  "fmax a b = (if flt a b then b else a)"

definition fmin :: "pyfloat \<Rightarrow> pyfloat \<Rightarrow> pyfloat" where
  "fmin a b = (if flt b a then b else a)"

definition with_prob :: "int \<Rightarrow> int option \<Rightarrow> py_error + pyfloat" where
  "with_prob w spc_prob_tor =
     (case spc_prob_tor of
        None \<Rightarrow> Inr (Fin (of_int w))
      | Some p \<Rightarrow> bind_err (float_of_int p)
                   (\<lambda>pf. Inr (fadd (Fin (of_int w)) (fmul (float_lit (12 / 10)) pf))))"

definition with_gust :: "int \<Rightarrow> pyfloat \<Rightarrow> pyfloat" where
  "with_gust max_gust s =
     (if 35 < max_gust then fadd s (Fin (of_int (min (max_gust - 35) 30))) else s)"

definition raw_score :: "int \<Rightarrow> int option \<Rightarrow> HourlySummary \<Rightarrow> py_error + pyfloat" where
  "raw_score w spc_prob_tor hs =
     bind_err (with_prob w spc_prob_tor) (\<lambda>s1.
     bind_err (float_of_int (min (thunder_hours hs) 10)) (\<lambda>tf.
     bind_err (float_of_int (max_pop hs)) (\<lambda>qf.
       Inr (fadd (with_gust (max_gust_mph hs) (fadd s1 (fmul (float_lit 2) tf)))
              (fmul (float_lit (2 / 10)) qf)))))"

definition alert_floors :: "AlertFlags \<Rightarrow> pyfloat \<Rightarrow> pyfloat" where
  "alert_floors als x =
     (let x = (if has_watch als then fmax x (Fin 70) else x);
          x = (if has_warning als then fmax x (Fin 90) else x);
          x = (if has_pds als then fmax x (Fin 98) else x)
      in x)"

definition clip_round :: "pyfloat \<Rightarrow> pyfloat" where
  "clip_round x = float_round1 (fmax (Fin 0) (fmin (Fin 100) x))"

text \<open>
  A preorder on floats used to follow a score through the arithmetic: the infinities are
  the ends, and a NaN counts as large as \<open>+inf\<close> (the final clip sends both to 100).
\<close>

fun fbelow :: "pyfloat \<Rightarrow> pyfloat \<Rightarrow> bool" where
  "fbelow (Fin a) (Fin b) = (a \<le> b)"
| "fbelow NInf _ = True"
| "fbelow _ PInf = True"
| "fbelow _ NaN = True"
| "fbelow _ _ = False"

text \<open>The values of the format: a finite one is a fixed point of the rounding and in range.\<close>

fun is_float :: "pyfloat \<Rightarrow> bool" where
  "is_float (Fin q) = (fl q = q \<and> \<bar>q\<bar> < 2 ^ 1024)"
| "is_float _ = True"

section \<open>Text\<close>

text \<open>
  A Python string is modelled as a \<^typ>\<open>string\<close> of ASCII characters; the case mappings,
  the character classes and the matching below are those of Python on ASCII text.
\<close>

definition ord :: "char \<Rightarrow> nat" where
  "ord c = of_char c"

definition is_digit :: "char \<Rightarrow> bool" where
  "is_digit c = (ord CHR ''0'' \<le> ord c \<and> ord c \<le> ord CHR ''9'')"

text \<open>
  The characters that \<^verbatim>\<open>\s\<close> matches: tab, line feed, vertical tab, form feed, carriage
  return, the four separators \<open>0x1c\<close> to \<open>0x1f\<close> and the space.
\<close>

definition is_space :: "char \<Rightarrow> bool" where
  "is_space c = (ord c \<in> {9, 10, 11, 12, 13, 28, 29, 30, 31, 32})"

definition lower_char :: "char \<Rightarrow> char" where
  "lower_char c =
     (if ord CHR ''A'' \<le> ord c \<and> ord c \<le> ord CHR ''Z'' then char_of (ord c + 32) else c)"

definition upper_char :: "char \<Rightarrow> char" where
  "upper_char c =
     (if ord CHR ''a'' \<le> ord c \<and> ord c \<le> ord CHR ''z'' then char_of (ord c - 32) else c)"

definition lower :: "string \<Rightarrow> string" where
  "lower s = map lower_char s"

definition upper :: "string \<Rightarrow> string" where
  "upper s = map upper_char s"

text \<open>\<^verbatim>\<open>sub in s\<close>: \<open>sub\<close> occurs in \<open>s\<close> as a contiguous piece.\<close>

definition py_in :: "string \<Rightarrow> string \<Rightarrow> bool" where
  "py_in sub s = sublist sub s"

text \<open>\<^verbatim>\<open>s.replace(" ", "")\<close>: every space character is dropped, and nothing else.\<close>

definition remove_spaces :: "string \<Rightarrow> string" where
  "remove_spaces s = filter (\<lambda>c. c \<noteq> CHR '' '') s"

text \<open>The value of a run of decimal digits, and the decimal digits of a natural number.\<close>

definition digit_val :: "char \<Rightarrow> nat" where
  "digit_val c = ord c - ord CHR ''0''"

definition dec_value :: "string \<Rightarrow> int" where
  "dec_value ds = int (foldl (\<lambda>n c. 10 * n + digit_val c) 0 ds)"

fun digits_of_nat :: "nat \<Rightarrow> string" where
  "digits_of_nat n =
     (if n < 10 then [char_of (48 + n)]
      else digits_of_nat (n div 10) @ [char_of (48 + n mod 10)])"

definition str_of_int :: "int \<Rightarrow> string" where
  "str_of_int n = (if n < 0 then CHR ''-'' # digits_of_nat (nat (- n)) else digits_of_nat (nat n))"

text \<open>
  \<^verbatim>\<open>int(s)\<close> of a string, in base 10: surrounding white space (tab to carriage return,
  and the space) is dropped, one sign is allowed, and the digits may be grouped by single
  underscores.  \<open>None\<close> stands for the \<^verbatim>\<open>ValueError\<close> raised on anything else.  (The
  interpreter's optional limit on the number of digits is not part of the model.)
\<close>

definition is_int_space :: "char \<Rightarrow> bool" where
  "is_int_space c = (ord c \<in> {9, 10, 11, 12, 13, 32})"

definition strip :: "string \<Rightarrow> string" where
  "strip s = rev (dropWhile is_int_space (rev (dropWhile is_int_space s)))"

fun digit_groups :: "string \<Rightarrow> bool" where
  "digit_groups [] = False"
| "digit_groups [c] = is_digit c"
| "digit_groups (c # d # s) =
     (is_digit c \<and> (if d = CHR ''_'' then digit_groups s else digit_groups (d # s)))"

definition unsigned_of_str :: "string \<Rightarrow> int option" where
  "unsigned_of_str s =
     (if digit_groups s then Some (dec_value (filter (\<lambda>c. c \<noteq> CHR ''_'') s)) else None)"

definition int_of_str :: "string \<Rightarrow> int option" where
  "int_of_str s =
     (case strip s of
        [] \<Rightarrow> None
      | c # t \<Rightarrow>
          if c = CHR ''-'' then map_option uminus (unsigned_of_str t)
          else if c = CHR ''+'' then unsigned_of_str t
          else unsigned_of_str (c # t))"

subsection \<open>Regular expressions\<close>

text \<open>
  The three patterns of the script are built from literals, \<^verbatim>\<open>\d+\<close>, \<^verbatim>\<open>\s*\<close>, sequence,
  alternation and groups.  \<open>matches\<close> lists the ways a pattern can match at the start of a
  text in the order in which a backtracking matcher tries them (a repetition is greedy:
  longest first), each with the captured groups and the text that is left.  \<open>search\<close> is
  \<^verbatim>\<open>re.search\<close>: the first way to match at the leftmost position that has one.  The flag
  is \<^verbatim>\<open>re.I\<close>.
\<close>

datatype regex =
    Lit string
  | Plus "char \<Rightarrow> bool"
  | Star "char \<Rightarrow> bool"
  | Seq regex regex
  | Alt regex regex
  | Group regex

fun matches :: "bool \<Rightarrow> regex \<Rightarrow> string \<Rightarrow> (string list \<times> string) list" where
  "matches ic (Lit w) s =
     (if length w \<le> length s \<and>
         (if ic then lower (take (length w) s) = lower w else take (length w) s = w)
      then [([], drop (length w) s)] else [])"
| "matches ic (Plus P) s =
     map (\<lambda>n. ([], drop n s)) (rev [1 ..< Suc (length (takeWhile P s))])"
| "matches ic (Star P) s =
     map (\<lambda>n. ([], drop n s)) (rev [0 ..< Suc (length (takeWhile P s))])"
| "matches ic (Seq r1 r2) s =
     concat (map (\<lambda>(g1, t). map (\<lambda>(g2, u). (g1 @ g2, u)) (matches ic r2 t)) (matches ic r1 s))"
| "matches ic (Alt r1 r2) s = matches ic r1 s @ matches ic r2 s"
| "matches ic (Group r) s =
     map (\<lambda>(g, t). (take (length s - length t) s # g, t)) (matches ic r s)"

fun search :: "bool \<Rightarrow> regex \<Rightarrow> string \<Rightarrow> string list option" where
  "search ic r [] = (case matches ic r [] of [] \<Rightarrow> None | (g, _) # _ \<Rightarrow> Some g)"
| "search ic r (c # s) =
     (case matches ic r (c # s) of [] \<Rightarrow> search ic r s | (g, _) # _ \<Rightarrow> Some g)"

text \<open>\<^verbatim>\<open>re.compile(r"(thunder|t-storm|storm)", re.I)\<close>\<close>

definition thunder_re :: regex where
  "thunder_re = Group (Alt (Lit ''thunder'') (Alt (Lit ''t-storm'') (Lit ''storm'')))"

text \<open>\<^verbatim>\<open>r"(\d+)"\<close>\<close>

definition digits_re :: regex where
  "digits_re = Group (Plus is_digit)"

text \<open>\<^verbatim>\<open>r"(\d+)\s*%"\<close>\<close>

definition percent_re :: regex where
  "percent_re = Seq (Group (Plus is_digit)) (Seq (Star is_space) (Lit ''%''))"

text \<open>\<^verbatim>\<open>int(m.group(1))\<close> of a search, when it matched.\<close>

definition search_int :: "regex \<Rightarrow> string \<Rightarrow> int option" where
  "search_int r s = (case search False r s of Some (g # _) \<Rightarrow> Some (dec_value g) | _ \<Rightarrow> None)"

section \<open>Decoded JSON\<close>

text \<open>
  The values \<^verbatim>\<open>r.json()\<close> can return.  A dictionary keeps its entries in insertion order
  and is modelled by the list of its entries; the keys of a dictionary are distinct, and
  a key is looked up from the front of the list.
\<close>

datatype json =
    JNull
  | JBool bool
  | JInt int
  | JFloat pyfloat
  | JStr string
  | JArr "json list"
  | JObj "(string \<times> json) list"

type_synonym dict = "(string \<times> json) list"

text \<open>Truth value of an object, as \<^verbatim>\<open>or\<close>, \<^verbatim>\<open>not\<close> and \<^verbatim>\<open>if\<close> take it.\<close>

fun truthy :: "json \<Rightarrow> bool" where
  "truthy JNull = False"
| "truthy (JBool b) = b"
| "truthy (JInt n) = (n \<noteq> 0)"
| "truthy (JFloat x) = (x \<noteq> Fin 0)"
| "truthy (JStr s) = (s \<noteq> [])"
| "truthy (JArr xs) = (xs \<noteq> [])"
| "truthy (JObj kvs) = (kvs \<noteq> [])"

definition py_or :: "json \<Rightarrow> json \<Rightarrow> json" where
  "py_or a b = (if truthy a then a else b)"

text \<open>\<^verbatim>\<open>d.get(k, default)\<close>; without a default the result is \<^verbatim>\<open>None\<close>.\<close>

definition dict_get :: "dict \<Rightarrow> string \<Rightarrow> json \<Rightarrow> json" where
  "dict_get d k dflt = (case map_of d k of None \<Rightarrow> dflt | Some v \<Rightarrow> v)"

fun safe_get :: "json \<Rightarrow> string list \<Rightarrow> json \<Rightarrow> json" where
  "safe_get cur [] dflt = cur"
| "safe_get cur (k # ks) dflt =
     (case cur of
        JObj d \<Rightarrow> (case map_of d k of None \<Rightarrow> dflt | Some v \<Rightarrow> safe_get v ks dflt)
      | _ \<Rightarrow> dflt)"

subsection \<open>Text of a value\<close>

text \<open>
  \<^verbatim>\<open>str(v)\<close>, which is also what an f-string field prints.  A string prints as itself; inside
  a list or a dictionary it prints as its \<^verbatim>\<open>repr\<close>, in quotes and escaped.  The text of a
  float is produced by the interpreter's shortest-digits formatter, which the script does
  not define: it is the parameter \<open>fr\<close> of the functions below.
\<close>

definition hex_digit :: "nat \<Rightarrow> char" where
  "hex_digit n = (if n < 10 then char_of (48 + n) else char_of (87 + n))"

definition repr_char :: "char \<Rightarrow> char \<Rightarrow> string" where
  "repr_char quote c =
     (if c = CHR 0x5C then [CHR 0x5C, CHR 0x5C]
      else if c = quote then [CHR 0x5C, quote]
      else if c = CHR 0x09 then [CHR 0x5C, CHR ''t'']
      else if c = CHR 0x0A then [CHR 0x5C, CHR ''n'']
      else if c = CHR 0x0D then [CHR 0x5C, CHR ''r'']
      else if ord c < 32 \<or> ord c = 127
        then [CHR 0x5C, CHR ''x'', hex_digit (ord c div 16), hex_digit (ord c mod 16)]
      else [c])"

definition repr_str :: "string \<Rightarrow> string" where
  "repr_str s =
     (let quote = (if CHR 0x27 \<in> set s \<and> CHR 0x22 \<notin> set s then CHR 0x22 else CHR 0x27)
      in [quote] @ concat (map (repr_char quote) s) @ [quote])"

fun join :: "string \<Rightarrow> string list \<Rightarrow> string" where
  "join sep [] = []"
| "join sep [x] = x"
| "join sep (x # y # xs) = x @ sep @ join sep (y # xs)"

fun py_repr :: "(pyfloat \<Rightarrow> string) \<Rightarrow> json \<Rightarrow> string" where
  "py_repr fr JNull = ''None''"
| "py_repr fr (JBool b) = (if b then ''True'' else ''False'')"
| "py_repr fr (JInt n) = str_of_int n"
| "py_repr fr (JFloat x) = fr x"
| "py_repr fr (JStr s) = repr_str s"
| "py_repr fr (JArr xs) = ''['' @ join '', '' (map (py_repr fr) xs) @ '']''"
| "py_repr fr (JObj kvs) =
     ''{'' @ join '', '' (map (\<lambda>(k, v). repr_str k @ '': '' @ py_repr fr v) kvs) @ ''}''"

definition py_str :: "(pyfloat \<Rightarrow> string) \<Rightarrow> json \<Rightarrow> string" where
  "py_str fr v = (case v of JStr s \<Rightarrow> s | _ \<Rightarrow> py_repr fr v)"

section \<open>Step 2: the hourly summary\<close>

text \<open>
  \<^verbatim>\<open>int(x)\<close> of a decoded value: an integer is itself, a Boolean is 0 or 1, a float is
  truncated, a string is parsed; \<^verbatim>\<open>None\<close>, lists and dictionaries raise \<^verbatim>\<open>TypeError\<close>.
\<close>

fun py_int :: "json \<Rightarrow> py_error + int" where
  "py_int (JInt n) = Inr n"
| "py_int (JBool b) = Inr (if b then 1 else 0)"
| "py_int (JFloat x) = int_of_float x"
| "py_int (JStr s) = (case int_of_str s of None \<Rightarrow> Inl ValueError | Some n \<Rightarrow> Inr n)"
| "py_int _ = Inl TypeError"

text \<open>
  The precipitation probability of one period: \<^verbatim>\<open>max(0, min(100, int(pop)))\<close>, and 0 when
  the conversion raises (the \<^verbatim>\<open>try\<close> of the source catches every exception).
\<close>

definition clamp_pop :: "json \<Rightarrow> int" where
  "clamp_pop pop = (case py_int pop of Inl _ \<Rightarrow> 0 | Inr n \<Rightarrow> max 0 (min 100 n))"

text \<open>
  \<^verbatim>\<open>gust_mph\<close> of one period: the first run of digits of a string (0 when there is none),
  \<^verbatim>\<open>float(gust)\<close> of an integer, a Boolean or a float, and 0 for anything else.
\<close>

fun gust_mph :: "json \<Rightarrow> py_error + pynum" where
  "gust_mph (JStr s) =
     Inr (PyInt (case search_int digits_re s of None \<Rightarrow> 0 | Some n \<Rightarrow> n))"
| "gust_mph (JInt n) = bind_err (float_of_int n) (\<lambda>x. Inr (PyFloat x))"
| "gust_mph (JBool b) = Inr (PyFloat (Fin (if b then 1 else 0)))"
| "gust_mph (JFloat x) = Inr (PyFloat x)"
| "gust_mph _ = Inr (PyInt 0)"

fun num_to_int :: "pynum \<Rightarrow> py_error + int" where
  "num_to_int (PyInt n) = Inr n"
| "num_to_int (PyFloat x) = int_of_float x"

text \<open>
  \<^verbatim>\<open>thunder_re.search(sf)\<close> on the value of \<^verbatim>\<open>p.get("shortForecast", "") or ""\<close>: a value
  that is not a string makes \<^verbatim>\<open>re\<close> raise \<^verbatim>\<open>TypeError\<close>.
\<close>

definition mentions_thunder :: "dict \<Rightarrow> py_error + bool" where
  "mentions_thunder p =
     (case py_or (dict_get p ''shortForecast'' (JStr [])) (JStr []) of
        JStr sf \<Rightarrow> Inr (search True thunder_re sf \<noteq> None)
      | _ \<Rightarrow> Inl TypeError)"

definition period_pop :: "dict \<Rightarrow> int" where
  "period_pop p =
     clamp_pop (py_or (safe_get (JObj p) [''probabilityOfPrecipitation'', ''value''] (JInt 0))
                 (JInt 0))"

definition period_gust :: "dict \<Rightarrow> py_error + int" where
  "period_gust p = bind_err (gust_mph (dict_get p ''windGust'' JNull)) num_to_int"

text \<open>One turn of the loop over the periods, and the loop.\<close>

definition summarize_step :: "HourlySummary \<Rightarrow> dict \<Rightarrow> py_error + HourlySummary" where
  "summarize_step acc p =
     bind_err (mentions_thunder p) (\<lambda>hit.
     bind_err (period_gust p) (\<lambda>g.
       Inr \<lparr> thunder_hours = (if hit then thunder_hours acc + 1 else thunder_hours acc),
              max_pop = max (max_pop acc) (period_pop p),
              max_gust_mph = max (max_gust_mph acc) g \<rparr>))"

fun summarize_loop :: "HourlySummary \<Rightarrow> dict list \<Rightarrow> py_error + HourlySummary" where
  "summarize_loop acc [] = Inr acc"
| "summarize_loop acc (p # ps) = bind_err (summarize_step acc p) (\<lambda>acc'. summarize_loop acc' ps)"

definition summarize_hourly :: "dict list \<Rightarrow> py_error + HourlySummary" where
  "summarize_hourly periods_24h =
     summarize_loop \<lparr> thunder_hours = 0, max_pop = 0, max_gust_mph = 0 \<rparr> periods_24h"

section \<open>Step 3: the alert flags\<close>

definition alert_field :: "dict \<Rightarrow> string \<Rightarrow> json" where
  "alert_field f name = py_or (safe_get (JObj f) [''properties'', name] (JStr [])) (JStr [])"

text \<open>\<^verbatim>\<open>f"{event} {headline} {desc}".lower()\<close>\<close>

definition alert_text :: "(pyfloat \<Rightarrow> string) \<Rightarrow> dict \<Rightarrow> string" where
  "alert_text fr f =
     lower (py_str fr (alert_field f ''event'') @ '' '' @ py_str fr (alert_field f ''headline'')
            @ '' '' @ py_str fr (alert_field f ''description''))"

definition classify_step :: "(pyfloat \<Rightarrow> string) \<Rightarrow> AlertFlags \<Rightarrow> dict \<Rightarrow> AlertFlags" where
  "classify_step fr acc f =
     (let txt = alert_text fr f
      in \<lparr> has_watch = (if py_in ''tornado watch'' txt then True else has_watch acc),
           has_warning = (if py_in ''tornado warning'' txt then True else has_warning acc),
           has_pds = (if py_in ''particularly dangerous situation'' txt \<or> py_in ''pds'' txt
                      then True else has_pds acc) \<rparr>)"

definition classify_tornado_alerts :: "(pyfloat \<Rightarrow> string) \<Rightarrow> dict list \<Rightarrow> AlertFlags" where
  "classify_tornado_alerts fr features =
     foldl (classify_step fr) \<lparr> has_watch = False, has_warning = False, has_pds = False \<rparr>
       features"

section \<open>Step 4: the SPC outlook\<close>

text \<open>
  The two resolvers are modelled from the point where the query has answered: their
  argument is the decoded response \<^verbatim>\<open>data\<close>.  \<open>first_feature\<close> is \<^verbatim>\<open>feats[0]\<close> for a true
  \<^verbatim>\<open>feats\<close>, and \<open>feature_properties\<close> is \<^verbatim>\<open>feats[0].get("properties", {})\<close>.
\<close>

fun first_feature :: "json \<Rightarrow> py_error + json" where
  "first_feature (JArr (x # xs)) = Inr x"
| "first_feature (JStr (c # s)) = Inr (JStr [c])"
| "first_feature (JObj kvs) = Inl KeyError"
| "first_feature _ = Inl TypeError"

fun get_method :: "json \<Rightarrow> string \<Rightarrow> json \<Rightarrow> py_error + json" where
  "get_method (JObj d) k dflt = Inr (dict_get d k dflt)"
| "get_method _ k dflt = Inl AttributeError"

definition feature_properties :: "json \<Rightarrow> py_error + json" where
  "feature_properties feats =
     bind_err (first_feature feats) (\<lambda>f. get_method f ''properties'' (JObj []))"

text \<open>\<^verbatim>\<open>label.upper().replace(" ", "")\<close> and the search through the vocabulary.\<close>

definition normalize_label :: "string \<Rightarrow> string" where
  "normalize_label label = remove_spaces (upper label)"

definition match_category :: "string \<Rightarrow> string option" where
  "match_category label =
     (if py_in ''TSTM'' label then Some ''TSTM''
      else find (\<lambda>v. py_in v label) [''MRGL'', ''SLGT'', ''ENH'', ''MDT'', ''HIGH''])"

definition get_spc_categorical :: "dict \<Rightarrow> py_error + string option" where
  "get_spc_categorical data =
     (let feats = dict_get data ''features'' (JArr [])
      in if \<not> truthy feats then Inr None
         else bind_err (feature_properties feats) (\<lambda>props.
              bind_err (get_method props ''LABEL'' JNull) (\<lambda>l1.
              bind_err (get_method props ''LABEL2'' JNull) (\<lambda>l2.
              bind_err (get_method props ''Type'' JNull) (\<lambda>l3.
              bind_err (get_method props ''label'' JNull) (\<lambda>l4.
                case py_or l1 (py_or l2 (py_or l3 (py_or l4 (JStr [])))) of
                  JStr label \<Rightarrow> Inr (match_category (normalize_label label))
                | _ \<Rightarrow> Inl AttributeError))))))"

text \<open>The percentage found in a text, and the first one found in a list of values.\<close>

definition percent_in :: "(pyfloat \<Rightarrow> string) \<Rightarrow> json \<Rightarrow> int option" where
  "percent_in fr v = search_int percent_re (py_str fr v)"

fun first_percent :: "(pyfloat \<Rightarrow> string) \<Rightarrow> json list \<Rightarrow> int option" where
  "first_percent fr [] = None"
| "first_percent fr (v # vs) =
     (case percent_in fr v of Some n \<Rightarrow> Some n | None \<Rightarrow> first_percent fr vs)"

definition get_spc_prob_tornado :: "(pyfloat \<Rightarrow> string) \<Rightarrow> dict \<Rightarrow> py_error + int option" where
  "get_spc_prob_tornado fr data =
     (let feats = dict_get data ''features'' (JArr [])
      in if \<not> truthy feats then Inr None
         else bind_err (feature_properties feats) (\<lambda>props.
              case props of
                JObj d \<Rightarrow>
                  (case percent_in fr (py_or (dict_get d ''LABEL'' JNull)
                                        (py_or (dict_get d ''label'' JNull) (JStr []))) of
                     Some n \<Rightarrow> Inr (Some n)
                   | None \<Rightarrow> Inr (first_percent fr (map snd d)))
              | _ \<Rightarrow> Inl AttributeError))"

section \<open>What the specification says, in its own words\<close>

text \<open>
  The definitions of this section are not taken from the script.  They state what the
  specification says each part computes, so that the functions above can be compared with
  them.  Those called \<open>claimed_\<dots>\<close> follow a sentence that the script does not satisfy.
\<close>

subsection \<open>The hourly summary\<close>

text \<open>
  The short description of a period, case-insensitively, contains \<open>thunder\<close>, \<open>t-storm\<close>
  or \<open>storm\<close>.
\<close>

definition has_thunder_text :: "dict \<Rightarrow> bool" where
  "has_thunder_text p =
     (case dict_get p ''shortForecast'' (JStr []) of
        JStr sf \<Rightarrow> py_in ''thunder'' (lower sf) \<or> py_in ''t-storm'' (lower sf)
                    \<or> py_in ''storm'' (lower sf)
      | _ \<Rightarrow> False)"

text \<open>The first integer embedded in a text: its first maximal run of digits; 0 without one.\<close>

definition first_embedded_integer :: "string \<Rightarrow> int" where
  "first_embedded_integer s =
     (case dropWhile (\<lambda>c. \<not> is_digit c) s of
        [] \<Rightarrow> 0
      | t \<Rightarrow> dec_value (takeWhile is_digit t))"

text \<open>
  The precipitation probability of a period: the value under
  \<^verbatim>\<open>probabilityOfPrecipitation.value\<close> as an integer (a float truncated, a numeric text
  parsed, a Boolean as 0 or 1) clamped to \<open>[0, 100]\<close>; 0 when it is absent, null or not a
  number.
\<close>

definition pop_value :: "dict \<Rightarrow> int" where
  "pop_value p =
     (case safe_get (JObj p) [''probabilityOfPrecipitation'', ''value''] (JInt 0) of
        JInt n \<Rightarrow> max 0 (min 100 n)
      | JBool b \<Rightarrow> (if b then 1 else 0)
      | JFloat (Fin q) \<Rightarrow> max 0 (min 100 (trunc_rat q))
      | JStr s \<Rightarrow> (case int_of_str s of None \<Rightarrow> 0 | Some n \<Rightarrow> max 0 (min 100 n))
      | _ \<Rightarrow> 0)"

text \<open>
  The gust of a period as the script reads it: the first embedded integer of a text; a
  number converted to float and truncated toward zero; 0 when absent or of another kind.
\<close>

definition gust_value :: "dict \<Rightarrow> int" where
  "gust_value p =
     (case dict_get p ''windGust'' JNull of
        JStr s \<Rightarrow> first_embedded_integer s
      | JInt n \<Rightarrow> trunc_rat (fl (of_int n))
      | JBool b \<Rightarrow> (if b then 1 else 0)
      | JFloat (Fin q) \<Rightarrow> trunc_rat q
      | _ \<Rightarrow> 0)"

text \<open>
  The gust of a period as claim C4 words it: a number is used directly (and truncated
  toward zero), and the summary takes the maximum over the periods.
\<close>

definition claimed_gust :: "dict \<Rightarrow> int" where
  "claimed_gust p =
     (case dict_get p ''windGust'' JNull of
        JStr s \<Rightarrow> first_embedded_integer s
      | JInt n \<Rightarrow> n
      | JFloat (Fin q) \<Rightarrow> trunc_rat q
      | _ \<Rightarrow> 0)"

definition claimed_max_gust :: "dict list \<Rightarrow> int" where
  "claimed_max_gust ps = (if ps = [] then 0 else Max (set (map claimed_gust ps)))"

text \<open>
  The periods on which the loop does not raise: the description is a text or a false
  value, and a numeric gust is a finite float or an integer that converts to one.
\<close>

definition period_ok :: "dict \<Rightarrow> bool" where
  "period_ok p =
     ((case py_or (dict_get p ''shortForecast'' (JStr [])) (JStr []) of
         JStr sf \<Rightarrow> True | _ \<Rightarrow> False) \<and>
      (case dict_get p ''windGust'' JNull of
         JFloat x \<Rightarrow> (case x of Fin q \<Rightarrow> True | _ \<Rightarrow> False)
       | JInt n \<Rightarrow> float_sized n
       | _ \<Rightarrow> True))"

subsection \<open>The outlook resolvers\<close>

definition vocabulary :: "string list" where
  "vocabulary = [''TSTM'', ''MRGL'', ''SLGT'', ''ENH'', ''MDT'', ''HIGH'']"

text \<open>The first true value among the candidate fields, and the empty text without one.\<close>

definition label_attribute :: "string list \<Rightarrow> dict \<Rightarrow> json" where
  "label_attribute names props =
     (case filter truthy (map (\<lambda>k. dict_get props k JNull) names) of
        [] \<Rightarrow> JStr []
      | v # _ \<Rightarrow> v)"

text \<open>
  Claim C6 normalises a label by uppercasing it and removing white space.
\<close>

definition claimed_normalize_label :: "string \<Rightarrow> string" where
  "claimed_normalize_label label = filter (\<lambda>c. \<not> is_space c) (upper label)"

definition claimed_category :: "string \<Rightarrow> string option" where
  "claimed_category label = find (\<lambda>v. py_in v (claimed_normalize_label label)) vocabulary"

text \<open>
  A text starts with a number followed, after any white space, by a percent sign; the
  number of the leftmost place of a text where that is so.
\<close>

definition leading_percent :: "string \<Rightarrow> string option" where
  "leading_percent s =
     (let ds = takeWhile is_digit s; r = dropWhile is_space (dropWhile is_digit s)
      in if ds \<noteq> [] \<and> (case r of [] \<Rightarrow> False | c # _ \<Rightarrow> c = CHR ''%'') then Some ds else None)"

fun first_number_percent :: "string \<Rightarrow> int option" where
  "first_number_percent [] = None"
| "first_number_percent (c # s) =
     (case leading_percent (c # s) of
        Some ds \<Rightarrow> Some (dec_value ds)
      | None \<Rightarrow> first_number_percent s)"

text \<open>
  Claim C7 wants the percent sign immediately after the number.
\<close>

definition claimed_leading_percent :: "string \<Rightarrow> string option" where
  "claimed_leading_percent s =
     (let ds = takeWhile is_digit s; r = dropWhile is_digit s
      in if ds \<noteq> [] \<and> (case r of [] \<Rightarrow> False | c # _ \<Rightarrow> c = CHR ''%'') then Some ds else None)"

fun claimed_number_percent :: "string \<Rightarrow> int option" where
  "claimed_number_percent [] = None"
| "claimed_number_percent (c # s) =
     (case claimed_leading_percent (c # s) of
        Some ds \<Rightarrow> Some (dec_value ds)
      | None \<Rightarrow> claimed_number_percent s)"

text \<open>The first such number in a sequence of texts, taken in order.\<close>

fun first_number_percent_in :: "string list \<Rightarrow> int option" where
  "first_number_percent_in [] = None"
| "first_number_percent_in (s # ss) =
     (case first_number_percent s of Some n \<Rightarrow> Some n | None \<Rightarrow> first_number_percent_in ss)"

section \<open>Sample inputs\<close>

text \<open>Concrete inputs on which the theorems below are instantiated.\<close>

definition sample_periods :: "dict list" where
  "sample_periods =
     [[(''shortForecast'', JStr ''Thunderstorms''), (''windGust'', JStr ''50 mph'')],
      [(''shortForecast'', JStr ''Severe Thunderstorms''),
       (''probabilityOfPrecipitation'', JObj [(''value'', JInt 140)]),
       (''windGust'', JInt (- 5))]]"

definition odd_periods :: "dict list" where
  "odd_periods =
     [[(''probabilityOfPrecipitation'', JObj [(''value'', JInt (- 20))]), (''windGust'', JInt (- 5))],
      [(''probabilityOfPrecipitation'', JObj [(''value'', JInt 250)]), (''windGust'', JStr ''calm'')],
      [(''probabilityOfPrecipitation'', JObj [(''value'', JStr ''n/a'')]), (''windGust'', JArr [])]]"

text \<open>
  None of the sample inputs holds a float, so that the float formatter is never called on
  them; this one stands in for it.
\<close>

definition any_float_text :: "pyfloat \<Rightarrow> string" where
  "any_float_text x = []"

definition sample_alerts :: "dict list" where
  "sample_alerts =
     [[(''properties'', JObj [(''event'', JStr ''Severe Thunderstorm Watch''),
                              (''headline'', JNull),
                              (''description'', JStr ''...Tornado Warning issued...'')])]]"

definition polygon :: "dict \<Rightarrow> dict" where
  "polygon props = [(''features'', JArr [JObj [(''properties'', JObj props)]])]"

section \<open>Lemmas\<close>

lemma rhe_lower: "\<lfloor>q\<rfloor> \<le> round_half_even q"
  by (simp add: round_half_even_def Let_def)

lemma rhe_upper: "round_half_even q \<le> \<lfloor>q\<rfloor> + 1"
  by (simp add: round_half_even_def Let_def)

lemma rhe_of_int [simp]: "round_half_even (of_int n) = n"
  by (simp add: round_half_even_def Let_def)

lemma rhe_mono: assumes "q \<le> q'" shows "round_half_even q \<le> round_half_even q'"
proof (cases "\<lfloor>q\<rfloor> = \<lfloor>q'\<rfloor>")
  case True
  then show ?thesis using assms by (auto simp add: round_half_even_def Let_def)
next
  case False
  have "\<lfloor>q\<rfloor> \<le> \<lfloor>q'\<rfloor>" using assms by (rule floor_mono)
  with False have "\<lfloor>q\<rfloor> + 1 \<le> \<lfloor>q'\<rfloor>" by simp
  then show ?thesis using rhe_upper [of q] rhe_lower [of q'] by linarith
qed

lemma rhe_minus: "round_half_even (- q) = - round_half_even q"
proof (cases "q \<in> \<int>")
  case True
  then obtain n where "q = of_int n" by (auto elim: Ints_cases)
  then show ?thesis by (simp flip: of_int_minus)
next
  case False
  then have ne: "q \<noteq> of_int \<lfloor>q\<rfloor>" by (metis Ints_of_int)
  then have c: "\<lfloor>- q\<rfloor> = - \<lfloor>q\<rfloor> - 1"
    by (simp add: ceiling_altdef ceiling_def floor_minus) 
  have d: "0 < q - of_int \<lfloor>q\<rfloor>" using False
    by (metis Ints_of_int diff_gt_0_iff_gt of_int_floor_le order_le_less)
  show ?thesis using d
    by (auto simp add: round_half_even_def Let_def c)
qed

lemma pow2_less_iff: "(2::rat) powi m < 2 powi n \<longleftrightarrow> m < n"
proof
  assume "(2::rat) powi m < 2 powi n"
  show "m < n"
  proof (rule ccontr)
    assume "\<not> m < n"
    then have "n \<le> m" by simp
    then have "(2::rat) powi n \<le> 2 powi m" by (rule power_int_increasing) simp
    with \<open>(2::rat) powi m < 2 powi n\<close> show False by simp
  qed
next
  assume "m < n"
  then show "(2::rat) powi m < 2 powi n" by (rule power_int_strict_increasing) simp
qed

lemma pow2_le_iff: "(2::rat) powi m \<le> 2 powi n \<longleftrightarrow> m \<le> n"
  using pow2_less_iff [of n m] by (simp add: not_less [symmetric])

lemma quotient_bounds:
  assumes "0 < q" and "quotient_of q = (a, b)"
  shows "2 powi (bitlen a - bitlen b - 1) \<le> q" and "q < 2 powi (bitlen a - bitlen b + 1)"
proof -
  have b: "0 < b" using assms(2) by (rule quotient_of_denom_pos)
  have q: "q = of_int a / of_int b" using assms(2) by (rule quotient_of_div)
  have a: "0 < a" using assms(1) b unfolding q by (simp add: zero_less_divide_iff)
  have la: "1 \<le> bitlen a" using a by (simp add: bitlen_alt_def)
  have lb: "1 \<le> bitlen b" using b by (simp add: bitlen_alt_def)
  have a1: "(2::rat) powi (bitlen a - 1) \<le> of_int a"
  proof -
    have "(2::int) ^ nat (bitlen a - 1) \<le> a" using bitlen_bounds [OF a] by simp
    then have "(of_int ((2::int) ^ nat (bitlen a - 1)) :: rat) \<le> of_int a" by (simp only: of_int_le_iff)
    then show ?thesis using la by (simp add: power_int_def)
  qed
  have a2: "of_int a < (2::rat) powi bitlen a"
  proof -
    have "a < (2::int) ^ nat (bitlen a)" using bitlen_bounds [OF a] by simp
    then have "(of_int a :: rat) < of_int ((2::int) ^ nat (bitlen a))" by (simp only: of_int_less_iff)
    then show ?thesis using la by (simp add: power_int_def)
  qed
  have b1: "(2::rat) powi (bitlen b - 1) \<le> of_int b"
  proof -
    have "(2::int) ^ nat (bitlen b - 1) \<le> b" using bitlen_bounds [OF b] by simp
    then have "(of_int ((2::int) ^ nat (bitlen b - 1)) :: rat) \<le> of_int b" by (simp only: of_int_le_iff)
    then show ?thesis using lb by (simp add: power_int_def)
  qed
  have b2: "of_int b < (2::rat) powi bitlen b"
  proof -
    have "b < (2::int) ^ nat (bitlen b)" using bitlen_bounds [OF b] by simp
    then have "(of_int b :: rat) < of_int ((2::int) ^ nat (bitlen b))" by (simp only: of_int_less_iff)
    then show ?thesis using lb by (simp add: power_int_def)
  qed
  have bpos: "(0::rat) < of_int b" using b by simp
  have "2 powi (bitlen a - bitlen b - 1) * of_int b \<le> 2 powi (bitlen a - bitlen b - 1) * (2::rat) powi bitlen b"
    using b2 by (intro mult_left_mono) auto
  also have "\<dots> = 2 powi (bitlen a - 1)"
    by (simp flip: power_int_add)
  also have "\<dots> \<le> of_int a" by (rule a1)
  finally show "2 powi (bitlen a - bitlen b - 1) \<le> q"
    unfolding q using bpos by (simp add: pos_le_divide_eq)
  have "of_int a < (2::rat) powi bitlen a" by (rule a2)
  also have "\<dots> = 2 powi (bitlen a - bitlen b + 1) * 2 powi (bitlen b - 1)"
    by (simp flip: power_int_add)
  also have "\<dots> \<le> 2 powi (bitlen a - bitlen b + 1) * of_int b"
    using b1 by (intro mult_left_mono) auto
  finally show "q < 2 powi (bitlen a - bitlen b + 1)"
    unfolding q using bpos by (simp add: pos_divide_less_eq)
qed

lemma ilog2_bounds:
  assumes "0 < q"
  shows "2 powi ilog2 q \<le> q" and "q < 2 powi (ilog2 q + 1)"
proof -
  obtain a b where ab: "quotient_of q = (a, b)" by (cases "quotient_of q")
  note B = quotient_bounds [OF assms ab]
  show "2 powi ilog2 q \<le> q" using B(1) by (simp add: ilog2_def ab Let_def)
  show "q < 2 powi (ilog2 q + 1)" using B(2) by (auto simp add: ilog2_def ab Let_def)
qed

lemma ilog2_unique:
  assumes "2 powi k \<le> q" and "q < 2 powi (k + 1)"
  shows "ilog2 q = k"
proof -
  have q: "0 < q" using assms(1) by (rule less_le_trans [rotated]) simp
  note B = ilog2_bounds [OF q]
  have "(2::rat) powi k < 2 powi (ilog2 q + 1)" using assms(1) B(2) by simp
  then have 1: "k < ilog2 q + 1" by (simp add: pow2_less_iff)
  have "(2::rat) powi ilog2 q < 2 powi (k + 1)" using assms(2) B(1) by simp
  then have 2: "ilog2 q < k + 1" by (simp add: pow2_less_iff) 
  from 1 2 show ?thesis by simp
qed

lemma ilog2_mono:
  assumes "0 < x" and "x \<le> y"
  shows "ilog2 x \<le> ilog2 y"
proof -
  have y: "0 < y" using assms by simp
  have "(2::rat) powi ilog2 x \<le> x" using ilog2_bounds(1) [OF assms(1)] .
  also have "x \<le> y" by fact
  also have "y < 2 powi (ilog2 y + 1)" using ilog2_bounds(2) [OF y] .
  finally have "ilog2 x < ilog2 y + 1" by (simp add: pow2_less_iff)
  then show ?thesis by simp
qed

lemma ulp_exp_minus [simp]: "ulp_exp (- x) = ulp_exp x"
  by (simp add: ulp_exp_def)

lemma fl_minus: "fl (- x) = - fl x"
  by (simp add: fl_def rhe_minus)

lemma fl_zero [simp]: "fl 0 = 0"
  by (simp add: fl_def)

lemma ulp_exp_mono:
  assumes "0 < x" and "x \<le> y"
  shows "ulp_exp x \<le> ulp_exp y"
  using ilog2_mono [OF assms] assms by (simp add: ulp_exp_def)

lemma fl_nonneg:
  assumes "0 \<le> x"
  shows "0 \<le> fl x"
proof (cases "x = 0")
  case False
  have "0 \<le> x / 2 powi ulp_exp x" using assms by simp
  then have "0 \<le> \<lfloor>x / 2 powi ulp_exp x\<rfloor>" by simp
  then have "0 \<le> round_half_even (x / 2 powi ulp_exp x)"
    using rhe_lower [of "x / 2 powi ulp_exp x"] by linarith
  then show ?thesis using False by (simp add: fl_def)
qed simp

lemma fl_upper:
  assumes "0 < x"
  shows "fl x \<le> 2 powi (ulp_exp x + 53)"
proof -
  let ?e = "ulp_exp x"
  have s: "(0::rat) < 2 powi ?e" by simp
  have "ilog2 x + 1 \<le> ?e + 53" using assms by (simp add: ulp_exp_def)
  then have "(2::rat) powi (ilog2 x + 1) \<le> 2 powi (?e + 53)" by (simp only: pow2_le_iff)
  with ilog2_bounds(2) [OF assms] have "x \<le> 2 powi (?e + 53)" by simp
  also have "\<dots> = 2 ^ 53 * 2 powi ?e" by (simp add: power_int_add)
  finally have "x / 2 powi ?e \<le> of_int (2 ^ 53)" using s by (simp add: pos_divide_le_eq)
  then have "round_half_even (x / 2 powi ?e) \<le> 2 ^ 53"
    using rhe_mono [of "x / 2 powi ?e" "of_int (2 ^ 53)"] by (simp only: rhe_of_int)
  then have "(of_int (round_half_even (x / 2 powi ?e)) :: rat) \<le> of_int (2 ^ 53)"
    by (simp only: of_int_le_iff)
  then have "of_int (round_half_even (x / 2 powi ?e)) * 2 powi ?e \<le> 2 ^ 53 * (2::rat) powi ?e"
    using s by (simp only: mult_le_cancel_right_pos of_int_power of_int_numeral)
  then show ?thesis using assms by (simp add: fl_def power_int_add)
qed

lemma fl_lower:
  assumes "0 < x" and "- 1074 < ulp_exp x"
  shows "2 powi (ulp_exp x + 52) \<le> fl x"
proof -
  let ?e = "ulp_exp x"
  have s: "(0::rat) < 2 powi ?e" by simp
  have "?e + 52 = ilog2 x" using assms by (simp add: ulp_exp_def max_def split: if_splits)
  with ilog2_bounds(1) [OF assms(1)] have "2 powi (?e + 52) \<le> x" by simp
  then have "2 ^ 52 * 2 powi ?e \<le> x" by (simp add: power_int_add)
  then have "of_int (2 ^ 52) \<le> x / 2 powi ?e" using s by (simp add: pos_le_divide_eq)
  then have "2 ^ 52 \<le> round_half_even (x / 2 powi ?e)"
    using rhe_mono [of "of_int (2 ^ 52)" "x / 2 powi ?e"] by (simp only: rhe_of_int)
  then have "(of_int (2 ^ 52) :: rat) \<le> of_int (round_half_even (x / 2 powi ?e))"
    by (simp only: of_int_le_iff)
  then have "2 ^ 52 * (2::rat) powi ?e \<le> of_int (round_half_even (x / 2 powi ?e)) * 2 powi ?e"
    using s by (simp only: mult_le_cancel_right_pos of_int_power of_int_numeral)
  then show ?thesis using assms by (simp add: fl_def power_int_add)
qed

lemma fl_mono_pos:
  assumes "0 < x" and "x \<le> y"
  shows "fl x \<le> fl y"
proof (cases "ulp_exp x = ulp_exp y")
  case True
  have y: "0 < y" using assms by simp
  have "x / 2 powi ulp_exp y \<le> y / 2 powi ulp_exp y"
    using assms by (simp add: divide_right_mono)
  then have "round_half_even (x / 2 powi ulp_exp y) \<le> round_half_even (y / 2 powi ulp_exp y)"
    by (rule rhe_mono)
  then have "(of_int (round_half_even (x / 2 powi ulp_exp y)) :: rat)
      \<le> of_int (round_half_even (y / 2 powi ulp_exp y))" by (simp only: of_int_le_iff)
  then show ?thesis using assms y True by (simp add: fl_def)
next
  case False
  have y: "0 < y" using assms by simp
  from False ulp_exp_mono [OF assms] have lt: "ulp_exp x < ulp_exp y" by simp
  moreover have "- 1074 \<le> ulp_exp x" by (simp add: ulp_exp_def)
  ultimately have "- 1074 < ulp_exp y" by simp
  then have "2 powi (ulp_exp y + 52) \<le> fl y" using y by (intro fl_lower)
  moreover have "fl x \<le> 2 powi (ulp_exp x + 53)" using assms(1) by (rule fl_upper)
  moreover have "(2::rat) powi (ulp_exp x + 53) \<le> 2 powi (ulp_exp y + 52)"
    using lt by (simp only: pow2_le_iff)
  ultimately show ?thesis by linarith
qed

lemma fl_mono:
  assumes "x \<le> y"
  shows "fl x \<le> fl y"
proof -
  consider "0 < x" | "x \<le> 0" "0 \<le> y" | "y < 0" by linarith
  then show ?thesis
  proof cases
    case 1
    then show ?thesis using assms by (rule fl_mono_pos)
  next
    case 2
    have "0 \<le> fl (- x)" using 2(1) by (intro fl_nonneg) simp
    then have "fl x \<le> 0" by (simp add: fl_minus)
    moreover have "0 \<le> fl y" using 2(2) by (rule fl_nonneg)
    ultimately show ?thesis by simp
  next
    case 3
    then have "fl (- y) \<le> fl (- x)" using assms by (intro fl_mono_pos) simp_all
    then show ?thesis by (simp add: fl_minus)
  qed
qed

lemma fl_of_int_pos:
  fixes m :: int
  assumes "0 < m" and "m < 2 ^ 53"
  shows "fl (of_int m) = of_int m"
proof -
  let ?x = "of_int m :: rat"
  let ?e = "ulp_exp ?x"
  have x: "0 < ?x" using assms by simp
  have "(of_int m :: rat) < of_int (2 ^ 53)" using assms(2) by (simp only: of_int_less_iff)
  then have "?x < 2 powi 53" by simp
  with ilog2_bounds(1) [OF x] have "(2::rat) powi ilog2 ?x < 2 powi 53" by simp
  then have "ilog2 ?x < 53" by (simp only: pow2_less_iff)
  then have "?e \<le> 0" using x by (simp add: ulp_exp_def)
  then obtain k where e: "?e = - int k" by (metis nonpos_int_cases)
  have "?x / 2 powi ?e = of_int (m * 2 ^ k)"
    by (simp add: e power_int_minus divide_inverse)
  then have "round_half_even (?x / 2 powi ?e) = m * 2 ^ k" by (simp only: rhe_of_int)
  then have "fl ?x = of_int (m * 2 ^ k) * 2 powi ?e" using x by (simp add: fl_def)
  also have "\<dots> = ?x" by (simp add: e power_int_minus)
  finally show ?thesis .
qed

lemma fl_of_int:
  assumes "\<bar>n\<bar> < 2 ^ 53"
  shows "fl (of_int n) = of_int n"
proof -
  consider "0 < n" | "n = 0" | "n < 0" by linarith
  then show ?thesis
  proof cases
    case 1
    then show ?thesis using assms by (intro fl_of_int_pos) simp_all
  next
    case 2
    then show ?thesis by simp
  next
    case 3
    then have "fl (of_int (- n)) = of_int (- n)" using assms by (intro fl_of_int_pos) simp_all
    then show ?thesis by (simp add: fl_minus)
  qed
qed

lemma float_of_int_small:
  assumes "\<bar>n\<bar> < 2 ^ 53"
  shows "float_of_int n = Inr (Fin (of_int n))"
proof -
  have "\<bar>n\<bar> < 2 ^ 1024" using assms by (rule less_trans) simp
  then have "(of_int \<bar>n\<bar> :: rat) < of_int (2 ^ 1024)" by (simp only: of_int_less_iff)
  then have "\<bar>of_int n :: rat\<bar> < 2 ^ 1024" by simp
  then show ?thesis by (simp add: float_of_int_def fl_of_int [OF assms])
qed

lemma round64_Fin:
  assumes "\<bar>x\<bar> \<le> 2 ^ 52"
  shows "round64 x = Fin (fl x)" and "\<bar>fl x\<bar> \<le> 2 ^ 52"
proof -
  have e: "fl (2 ^ 52) = 2 ^ 52" using fl_of_int [of "2 ^ 52"] by simp
  have "fl x \<le> fl (2 ^ 52)" using assms by (intro fl_mono) simp
  moreover have "fl (- (2 ^ 52)) \<le> fl x" using assms by (intro fl_mono) simp
  ultimately show b: "\<bar>fl x\<bar> \<le> 2 ^ 52" unfolding fl_minus e by linarith
  have "(2::rat) ^ 52 < 2 ^ 1024" by simp
  with b have "\<bar>fl x\<bar> < 2 ^ 1024" by linarith
  then show "round64 x = Fin (fl x)" by (auto simp add: round64_def Let_def)
qed

lemma fbelow_refl [simp]: "fbelow x x"
  by (cases x) simp_all

lemma fbelow_trans: "fbelow x y \<Longrightarrow> fbelow y z \<Longrightarrow> fbelow x z"
  by (cases x; cases y; cases z) simp_all

lemma fbelow_PInf [simp]: "fbelow x PInf" by (cases x) simp_all
lemma fbelow_NaN [simp]: "fbelow x NaN" by (cases x) simp_all

lemma round64_mono:
  assumes "x \<le> y"
  shows "fbelow (round64 x) (round64 y)"
  using fl_mono [OF assms] by (auto simp add: round64_def Let_def)

lemma fadd_mono_left: "fbelow a a' \<Longrightarrow> fbelow (fadd a b) (fadd a' b)"
  by (cases a; cases a'; cases b) (simp_all add: round64_mono)

lemma fadd_mono_right: "fbelow b b' \<Longrightarrow> fbelow (fadd a b) (fadd a b')"
  by (cases a; cases b; cases b') (simp_all add: round64_mono)

lemma fadd_mono: "fbelow a a' \<Longrightarrow> fbelow b b' \<Longrightarrow> fbelow (fadd a b) (fadd a' b')"
  by (blast intro: fbelow_trans fadd_mono_left fadd_mono_right)

lemma fmul_pos_mono:
  assumes "0 < c" and "fbelow x y"
  shows "fbelow (fmul (Fin c) x) (fmul (Fin c) y)"
  using assms by (cases x; cases y) (simp_all add: round64_mono)

lemma float_of_int_mono:
  assumes "m \<le> n" and "float_of_int m = Inr a" and "float_of_int n = Inr b"
  shows "fbelow a b"
proof -
  have "fl (of_int m) \<le> fl (of_int n)" using assms(1) by (intro fl_mono) simp
  then show ?thesis using assms(2,3) by (auto simp add: float_of_int_def Let_def split: if_splits)
qed

lemma float_lit_of_int:
  assumes "\<bar>n\<bar> < 2 ^ 52"
  shows "float_lit (of_int n) = Fin (of_int n)"
proof -
  have "\<bar>n\<bar> \<le> 2 ^ 52" using assms by simp
  then have "(of_int \<bar>n\<bar> :: rat) \<le> of_int (2 ^ 52)" by (simp only: of_int_le_iff)
  then have "\<bar>of_int n :: rat\<bar> \<le> 2 ^ 52" by simp
  from round64_Fin(1) [OF this] show ?thesis using assms
    by (simp add: float_lit_def fl_of_int)
qed

lemma float_lit_consts:
  "float_lit 0 = Fin 0" "float_lit 2 = Fin 2" "float_lit 70 = Fin 70" "float_lit 90 = Fin 90"
  "float_lit 98 = Fin 98" "float_lit 100 = Fin 100"
  using float_lit_of_int [of 0] float_lit_of_int [of 2] float_lit_of_int [of 70]
    float_lit_of_int [of 90] float_lit_of_int [of 98] float_lit_of_int [of 100]
  by simp_all

lemma CAT_WEIGHTS_get_range: "0 \<le> CAT_WEIGHTS_get c 0 \<and> CAT_WEIGHTS_get c 0 \<le> 80"
  by (simp add: CAT_WEIGHTS_get_def CAT_WEIGHTS_def)

lemma bind_err_simps [simp]:
  "bind_err (Inl e) f = Inl e" "bind_err (Inr x) f = f x"
  by (simp_all add: bind_err_def)

lemma py_max_float [simp]: "py_max (PyFloat x) (PyFloat y) = PyFloat (fmax x y)"
  by (simp add: py_max_def fmax_def)

lemma py_min_float [simp]: "py_min (PyFloat x) (PyFloat y) = PyFloat (fmin x y)"
  by (simp add: py_min_def fmin_def)

lemma score_likelihood_float:
  "score_likelihood c p als hs =
     bind_err (raw_score (CAT_WEIGHTS_get c 0) p hs) (\<lambda>x.
       Inr \<lparr> score_0_100 = PyFloat (clip_round (alert_floors als x)),
              spc_categorical = c, spc_prob_tornado_pct = p, alerts = als,
              hourly_summary = hs \<rparr>)"
proof -
  let ?w = "CAT_WEIGHTS_get c 0"
  have w: "float_of_int ?w = Inr (Fin (of_int ?w))"
    using CAT_WEIGHTS_get_range [of c] by (intro float_of_int_small) simp
  have g: "float_of_int (min (max_gust_mph hs - 35) 30) = Inr (Fin (of_int (min (max_gust_mph hs - 35) 30)))"
    if "35 < max_gust_mph hs"
    using that by (intro float_of_int_small) simp
  show ?thesis
    unfolding score_likelihood_def raw_score_def with_prob_def with_gust_def Let_def float_lit_consts
    by (cases p; cases "float_of_int (the p)"; cases "float_of_int (min (thunder_hours hs) 10)";
        cases "float_of_int (max_pop hs)")
      (simp_all add: w g alert_floors_def clip_round_def Let_def)
qed

lemma fl_exact_scaled:
  assumes "ulp_exp x = e" and "x = of_int k * 2 powi e"
  shows "fl x = x"
proof (cases "x = 0")
  case False
  have "x / 2 powi e = of_int k" unfolding assms(2) by simp
  then have "round_half_even (x / 2 powi e) = k" by (simp only: rhe_of_int)
  then show ?thesis using False assms by (simp add: fl_def)
qed simp

lemma fl_idem_pos:
  assumes "0 < x"
  shows "fl (fl x) = fl x"
proof -
  let ?e = "ulp_exp x"
  let ?m = "round_half_even (x / 2 powi ?e)"
  let ?y = "fl x"
  have y: "?y = of_int ?m * 2 powi ?e" using assms by (simp add: fl_def)
  have e: "- 1074 \<le> ?e" by (simp add: ulp_exp_def)
  have up: "?y \<le> 2 powi (?e + 53)" using assms by (rule fl_upper)
  have nn: "0 \<le> ?y" using assms by (intro fl_nonneg) simp
  show ?thesis
  proof (cases "?y = 0")
    case True
    then show ?thesis by simp
  next
    case False
    with nn have ypos: "0 < ?y" by simp
    let ?e' = "ulp_exp ?y"
    show ?thesis
    proof (cases "?y = 2 powi (?e + 53)")
      case True
      have "ilog2 ?y = ?e + 53"
        by (rule ilog2_unique) (simp_all add: True pow2_less_iff)
      then have e': "?e' = ?e + 1" using e ypos by (simp add: ulp_exp_def)
      have "?y = of_int (2 ^ 52) * 2 powi (?e + 1)"
        using True by (simp add: power_int_add)
      with e' show ?thesis by (intro fl_exact_scaled [where e = "?e + 1"])
    next
      case F: False
      with up have "?y < 2 powi (?e + 53)" by simp
      with ilog2_bounds(1) [OF ypos] have "(2::rat) powi ilog2 ?y < 2 powi (?e + 53)" by simp
      then have "ilog2 ?y < ?e + 53" by (simp only: pow2_less_iff)
      then have "?e' \<le> ?e" using e ypos by (simp add: ulp_exp_def)
      then obtain d where d: "?e = ?e' + int d" by (metis zle_iff_zadd)
      have "?y = of_int ?m * 2 powi (?e' + int d)" using y d by simp
      also have "\<dots> = of_int (?m * 2 ^ d) * 2 powi ?e'"
        by (simp add: power_int_add mult_ac)
      finally have "?y = of_int (?m * 2 ^ d) * 2 powi ?e'" .
      then show ?thesis by (rule fl_exact_scaled [OF refl])
    qed
  qed
qed

lemma fl_idem [simp]: "fl (fl x) = fl x"
proof -
  consider "0 < x" | "x = 0" | "x < 0" by linarith
  then show ?thesis
  proof cases
    case 1
    then show ?thesis by (rule fl_idem_pos)
  next
    case 2
    then show ?thesis by simp
  next
    case 3
    then have "fl (fl (- x)) = fl (- x)" by (intro fl_idem_pos) simp
    then show ?thesis by (simp add: fl_minus)
  qed
qed

lemma float_of_int_sized:
  assumes "float_sized n"
  shows "\<exists>x. float_of_int n = Inr (Fin x)"
proof -
  have pos: "fl (of_int m) < 2 ^ 1024" if m: "0 < m" "m < 2 ^ 1023" for m :: int
  proof -
    let ?x = "of_int m :: rat"
    have x: "0 < ?x" using m by simp
    have "(of_int m :: rat) < of_int (2 ^ 1023)" using m(2) by (simp only: of_int_less_iff)
    then have "?x < 2 powi 1023" by simp
    with ilog2_bounds(1) [OF x] have "(2::rat) powi ilog2 ?x < 2 powi 1023" by simp
    then have "ilog2 ?x < 1023" by (simp only: pow2_less_iff)
    then have "ulp_exp ?x + 53 \<le> 1023" using x by (simp add: ulp_exp_def)
    then have "(2::rat) powi (ulp_exp ?x + 53) \<le> 2 powi 1023" by (simp only: pow2_le_iff)
    with fl_upper [OF x] have "fl ?x \<le> 2 powi 1023" by simp
    also have "\<dots> < (2::rat) powi 1024" by (simp only: pow2_less_iff)
    finally show ?thesis by simp
  qed
  have "\<bar>fl (of_int n)\<bar> < 2 ^ 1024"
  proof -
    consider "0 < n" | "n = 0" | "n < 0" by linarith
    then show ?thesis
    proof cases
      case 1
      moreover have "0 \<le> fl (of_int n)" using 1 by (intro fl_nonneg) simp
      ultimately show ?thesis using pos [of n] assms by (simp add: float_sized_def)
    next
      case 2
      then show ?thesis by simp
    next
      case 3
      moreover have "0 \<le> fl (of_int (- n))" using 3 by (intro fl_nonneg) simp
      ultimately show ?thesis using pos [of "- n"] assms by (simp add: float_sized_def fl_minus)
    qed
  qed
  then show ?thesis by (simp add: float_of_int_def Let_def)
qed

lemma float_of_int_cases:
  "float_of_int n = Inl OverflowError \<and> \<not> float_sized n \<or> (\<exists>x. float_of_int n = Inr (Fin x))"
  using float_of_int_sized [of n] by (auto simp add: float_of_int_def Let_def)

lemma raw_score_cases:
  "raw_score w p hs = Inl OverflowError \<and> \<not> inputs_float_sized p hs \<or> (\<exists>x. raw_score w p hs = Inr x)"
proof -
  have t: "float_sized (min (thunder_hours hs) 10)" if "float_sized (thunder_hours hs)"
    using that by (auto simp add: float_sized_def min_def)
  show ?thesis
    using float_of_int_cases [of "the p"] float_of_int_cases [of "min (thunder_hours hs) 10"]
      float_of_int_cases [of "max_pop hs"] t
    by (cases p) (auto simp add: raw_score_def with_prob_def inputs_float_sized_def Let_def)
qed

lemma float_round1_range:
  assumes "0 \<le> q" and "q \<le> 100"
  shows "\<exists>r. float_round1 (Fin q) = Fin r \<and> 0 \<le> r \<and> r \<le> 100"
proof -
  let ?v = "of_int (round_half_even (q * 10)) / 10 :: rat"
  have "round_half_even (of_int 0) \<le> round_half_even (q * 10)"
    using assms(1) by (intro rhe_mono) simp
  then have lo: "0 \<le> round_half_even (q * 10)" by (simp only: rhe_of_int)
  have "round_half_even (q * 10) \<le> round_half_even (of_int 1000)"
    using assms(2) by (intro rhe_mono) simp
  then have hi: "round_half_even (q * 10) \<le> 1000" by (simp only: rhe_of_int)
  have v0: "0 \<le> ?v" using lo by simp
  have "(of_int (round_half_even (q * 10)) :: rat) \<le> of_int 1000" using hi by (simp only: of_int_le_iff)
  then have v1: "?v \<le> 100" by simp
  have "\<bar>?v\<bar> \<le> 2 ^ 52" using v0 v1 by simp
  then have r: "round64 ?v = Fin (fl ?v)" by (rule round64_Fin(1))
  have "fl (of_int 100) = (of_int 100 :: rat)" by (rule fl_of_int) simp
  then have "fl 100 = (100 :: rat)" by simp
  moreover have "fl ?v \<le> fl 100" using v1 by (rule fl_mono)
  ultimately have "fl ?v \<le> 100" by simp
  moreover have "0 \<le> fl ?v" using v0 by (rule fl_nonneg)
  ultimately show ?thesis using r by simp
qed

lemma clip_cases: "\<exists>q. fmax (Fin 0) (fmin (Fin 100) x) = Fin q \<and> 0 \<le> q \<and> q \<le> 100"
  by (cases x) (auto simp add: fmax_def fmin_def)

lemma clip_round_range: "\<exists>q. clip_round x = Fin q \<and> 0 \<le> q \<and> q \<le> 100"
proof -
  obtain q where "fmax (Fin 0) (fmin (Fin 100) x) = Fin q" "0 \<le> q" "q \<le> 100"
    using clip_cases by blast
  then show ?thesis using float_round1_range [of q] by (simp add: clip_round_def)
qed

lemma clip_mono:
  assumes "fbelow x y"
  shows "fbelow (fmax (Fin 0) (fmin (Fin 100) x)) (fmax (Fin 0) (fmin (Fin 100) y))"
  using assms by (cases x; cases y) (auto simp add: fmax_def fmin_def)

lemma float_round1_mono:
  assumes "a \<le> b"
  shows "fbelow (float_round1 (Fin a)) (float_round1 (Fin b))"
proof -
  have "round_half_even (a * 10) \<le> round_half_even (b * 10)" using assms by (intro rhe_mono) simp
  then have "(of_int (round_half_even (a * 10)) :: rat) \<le> of_int (round_half_even (b * 10))"
    by (simp only: of_int_le_iff)
  then have "(of_int (round_half_even (a * 10)) :: rat) / 10 \<le> of_int (round_half_even (b * 10)) / 10"
    by simp
  then have "fbelow (round64 (of_int (round_half_even (a * 10)) / 10))
     (round64 (of_int (round_half_even (b * 10)) / 10))" by (rule round64_mono)
  then show ?thesis by simp
qed

lemma clip_round_mono:
  assumes "fbelow x y"
  shows "fbelow (clip_round x) (clip_round y)"
proof -
  obtain a where a: "fmax (Fin 0) (fmin (Fin 100) x) = Fin a" using clip_cases by blast
  obtain b where b: "fmax (Fin 0) (fmin (Fin 100) y) = Fin b" using clip_cases by blast
  have "a \<le> b" using clip_mono [OF assms] by (simp add: a b)
  then have "fbelow (float_round1 (Fin a)) (float_round1 (Fin b))" by (rule float_round1_mono)
  then show ?thesis by (simp only: clip_round_def a b)
qed

lemma clip_round_int:
  assumes "0 \<le> n" and "n \<le> 100"
  shows "clip_round (Fin (of_int n)) = Fin (of_int n)"
proof -
  have c: "fmax (Fin 0) (fmin (Fin 100) (Fin (of_int n))) = Fin (of_int n)"
    using assms by (auto simp add: fmax_def fmin_def)
  have "(of_int n :: rat) * 10 = of_int (n * 10)" by simp
  then have "round_half_even (of_int n * 10) = n * 10" by (simp only: rhe_of_int)
  then have "float_round1 (Fin (of_int n)) = round64 (of_int n)" by simp
  also have "\<dots> = Fin (of_int n)"
    using float_lit_of_int [of n] assms by (simp add: float_lit_def)
  finally show ?thesis by (simp add: clip_round_def c)
qed

lemma fmax_mono: "fbelow x y \<Longrightarrow> fbelow (fmax x (Fin c)) (fmax y (Fin c))"
  by (cases x; cases y) (auto simp add: fmax_def)

lemma fmax_ge_left: "fbelow x (fmax x (Fin c))"
  by (cases x) (auto simp add: fmax_def)

lemma fmax_ge_right: "fbelow (Fin c) (fmax x (Fin c))"
  by (cases x) (auto simp add: fmax_def)

lemma alert_floors_mono:
  assumes "fbelow x y"
  shows "fbelow (alert_floors als x) (alert_floors als y)"
  using assms by (auto simp add: alert_floors_def Let_def intro!: fmax_mono)

lemma alert_floors_watch: "has_watch als \<Longrightarrow> fbelow (Fin 70) (alert_floors als x)"
  unfolding alert_floors_def Let_def
  by (auto intro: fbelow_trans [OF fmax_ge_right fmax_ge_left] fmax_ge_right
        fbelow_trans [OF fbelow_trans [OF fmax_ge_right fmax_ge_left] fmax_ge_left])

lemma alert_floors_warning: "has_warning als \<Longrightarrow> fbelow (Fin 90) (alert_floors als x)"
  unfolding alert_floors_def Let_def
  by (auto intro: fbelow_trans [OF fmax_ge_right fmax_ge_left] fmax_ge_right)

lemma alert_floors_pds: "has_pds als \<Longrightarrow> fbelow (Fin 98) (alert_floors als x)"
  unfolding alert_floors_def Let_def
  by (auto intro: fmax_ge_right)

lemma clip_round_floor:
  assumes "fbelow (Fin (of_int n)) x" and "0 \<le> n" and "n \<le> 100"
    and "clip_round x = Fin q"
  shows "of_int n \<le> q"
  using clip_round_mono [OF assms(1)] clip_round_int [OF assms(2,3)] assms(4) by simp

lemma float_lit_eval:
  assumes "fl q = c" and "\<bar>q\<bar> \<le> 2 ^ 52"
  shows "float_lit q = Fin c"
  using round64_Fin(1) [OF assms(2)] assms(1) by (simp add: float_lit_def)

lemma fmul_eval:
  assumes "fl (a * b) = c" and "\<bar>a * b\<bar> \<le> 2 ^ 52"
  shows "fmul (Fin a) (Fin b) = Fin c"
  using round64_Fin(1) [OF assms(2)] assms(1) by simp

lemma fl_6_5: "fl (6 / 5) = 5404319552844595 / 4503599627370496"
  by code_simp

lemma fl_6_5_times_10: "fl (5404319552844595 / 4503599627370496 * 10) = 12"
  by code_simp

lemma fl_1_5: "fl (1 / 5) = 3602879701896397 / 18014398509481984"
  by code_simp

lemma fl_1_5_times_60: "fl (3602879701896397 / 18014398509481984 * 60) = 12"
  by code_simp

lemma round64_numeral:
  assumes "(numeral k :: int) < 2 ^ 52"
  shows "round64 (numeral k) = Fin (numeral k)"
  using float_lit_of_int [of "numeral k"] assms by (simp add: float_lit_def)

lemma float_of_int_numeral:
  assumes "(numeral k :: int) < 2 ^ 52"
  shows "float_of_int (numeral k) = Inr (Fin (numeral k))"
proof -
  have "(numeral k :: int) < 2 ^ 53" using assms by (rule less_trans) simp
  then have "\<bar>numeral k :: int\<bar> < 2 ^ 53" by simp
  from float_of_int_small [OF this] show ?thesis by simp
qed

lemma float_lit_6_5: "float_lit (6 / 5) = Fin (5404319552844595 / 4503599627370496)"
  by (rule float_lit_eval [OF fl_6_5]) simp

lemma float_lit_1_5: "float_lit (1 / 5) = Fin (3602879701896397 / 18014398509481984)"
  by (rule float_lit_eval [OF fl_1_5]) simp

lemma prob_term_10: "fmul (float_lit (6 / 5)) (Fin 10) = Fin 12"
  unfolding float_lit_6_5 by (rule fmul_eval [OF fl_6_5_times_10]) simp

lemma pop_term_60: "fmul (float_lit (1 / 5)) (Fin 60) = Fin 12"
  unfolding float_lit_1_5 by (rule fmul_eval [OF fl_1_5_times_60]) simp

lemma raw_score_scenario:
  "raw_score 25 (Some 10) \<lparr>thunder_hours = 3, max_pop = 60, max_gust_mph = 40\<rparr> = Inr (Fin 60)"
  by (simp add: raw_score_def with_prob_def with_gust_def float_of_int_numeral prob_term_10
      pop_term_60 float_lit_consts round64_numeral)

lemma clip_round_60: "clip_round (Fin 60) = Fin 60"
  using clip_round_int [of 60] by simp

lemma clip_round_90: "clip_round (Fin 90) = Fin 90"
  using clip_round_int [of 90] by simp

lemma is_float_round64 [simp]: "is_float (round64 x)"
  by (auto simp add: round64_def Let_def)

lemma is_float_fadd [simp]: "is_float (fadd a b)"
  by (cases a; cases b) simp_all

lemma round64_fixed: "is_float (Fin a) \<Longrightarrow> round64 a = Fin a"
  by (auto simp add: round64_def Let_def)

lemma fadd_nonneg_ge:
  assumes "is_float s" and "0 \<le> k"
  shows "fbelow s (fadd s (Fin k))"
proof (cases s)
  case (Fin a)
  have "fbelow (round64 a) (round64 (a + k))" using assms(2) by (intro round64_mono) simp
  then show ?thesis using assms(1) Fin by (simp add: round64_fixed)
qed simp_all

lemma with_gust_mono:
  assumes "is_float s'" and "fbelow s s'" and "g \<le> g'"
  shows "fbelow (with_gust g s) (with_gust g' s')"
proof -
  consider "35 < g" | "g \<le> 35" "35 < g'" | "g' \<le> 35" using assms(3) by linarith
  then show ?thesis
  proof cases
    case 1
    have "fbelow (Fin (of_int (min (g - 35) 30))) (Fin (of_int (min (g' - 35) 30)))"
      using assms(3) by simp
    with assms(2) show ?thesis using 1 assms(3) by (simp add: with_gust_def fadd_mono)
  next
    case 2
    have "fbelow s' (fadd s' (Fin (of_int (min (g' - 35) 30))))"
      using assms(1) 2 by (intro fadd_nonneg_ge) simp_all
    with assms(2) show ?thesis using 2 by (auto simp add: with_gust_def intro: fbelow_trans)
  next
    case 3
    then show ?thesis using assms by (simp add: with_gust_def)
  qed
qed

lemma float_of_int_nonneg:
  assumes "0 \<le> n" and "float_of_int n = Inr x"
  shows "fbelow (Fin 0) x"
proof -
  have "float_of_int 0 = Inr (Fin 0)" using float_of_int_small [of 0] by simp
  from float_of_int_mono [OF assms(1) this assms(2)] show ?thesis .
qed

lemma fmul_lit_mono:
  assumes "fbelow x y"
  shows "fbelow (fmul (float_lit (6 / 5)) x) (fmul (float_lit (6 / 5)) y)"
    and "fbelow (fmul (float_lit (1 / 5)) x) (fmul (float_lit (1 / 5)) y)"
    and "fbelow (fmul (Fin 2) x) (fmul (Fin 2) y)"
  unfolding float_lit_6_5 float_lit_1_5 using assms by (intro fmul_pos_mono; simp)+

lemma with_prob_mono:
  assumes "\<bar>w\<bar> < 2 ^ 52" and "w \<le> w'" and "pct_le p p'"
    and "with_prob w p = Inr s" and "with_prob w' p' = Inr s'"
  shows "fbelow s s'"
proof (cases p)
  case None
  note pN = this
  show ?thesis
  proof (cases p')
    case None
    then show ?thesis using assms pN by (auto simp add: with_prob_def)
  next
    case (Some q)
    with assms(3) pN have q: "0 \<le> q" by simp
    from assms(5) Some obtain qf where qf: "float_of_int q = Inr qf"
      and s': "s' = fadd (Fin (of_int w')) (fmul (float_lit (6 / 5)) qf)"
      by (cases "float_of_int q") (auto simp add: with_prob_def)
    have "fbelow (fmul (float_lit (6 / 5)) (Fin 0)) (fmul (float_lit (6 / 5)) qf)"
      using float_of_int_nonneg [OF q qf] by (rule fmul_lit_mono)
    moreover have "fmul (float_lit (6 / 5)) (Fin 0) = Fin 0"
      unfolding float_lit_6_5 using float_lit_consts(1) by (simp add: float_lit_def)
    ultimately have "fbelow (Fin 0) (fmul (float_lit (6 / 5)) qf)" by simp
    moreover have "fbelow (Fin (of_int w)) (Fin (of_int w'))" using assms(2) by simp
    ultimately have "fbelow (fadd (Fin (of_int w)) (Fin 0)) s'" unfolding s' by (rule fadd_mono [rotated])
    moreover have "fadd (Fin (of_int w)) (Fin 0) = Fin (of_int w)"
      using float_lit_of_int [OF assms(1)] by (simp add: float_lit_def)
    moreover have "s = Fin (of_int w)" using assms(4) pN by (simp add: with_prob_def)
    ultimately show ?thesis by simp
  qed
next
  case (Some n)
  note pS = this
  with assms(3) obtain q where p': "p' = Some q" and nq: "n \<le> q" by (cases p') simp_all
  from assms(4) pS obtain nf where nf: "float_of_int n = Inr nf"
    and s: "s = fadd (Fin (of_int w)) (fmul (float_lit (6 / 5)) nf)"
    by (cases "float_of_int n") (auto simp add: with_prob_def)
  from assms(5) p' obtain qf where qf: "float_of_int q = Inr qf"
    and s': "s' = fadd (Fin (of_int w')) (fmul (float_lit (6 / 5)) qf)"
    by (cases "float_of_int q") (auto simp add: with_prob_def)
  have "fbelow (fmul (float_lit (6 / 5)) nf) (fmul (float_lit (6 / 5)) qf)"
    using float_of_int_mono [OF nq nf qf] by (rule fmul_lit_mono)
  moreover have "fbelow (Fin (of_int w)) (Fin (of_int w'))" using assms(2) by simp
  ultimately show ?thesis unfolding s s' by (rule fadd_mono [rotated])
qed

lemma raw_score_mono:
  assumes "\<bar>w\<bar> < 2 ^ 52" and "w \<le> w'" and "pct_le p p'"
    and "thunder_hours hs \<le> thunder_hours hs'" and "max_pop hs \<le> max_pop hs'"
    and "max_gust_mph hs \<le> max_gust_mph hs'"
    and "raw_score w p hs = Inr x" and "raw_score w' p' hs' = Inr x'"
  shows "fbelow x x'"
proof -
  from assms(7) obtain s1 tf qf where s1: "with_prob w p = Inr s1"
    and tf: "float_of_int (min (thunder_hours hs) 10) = Inr tf"
    and qf: "float_of_int (max_pop hs) = Inr qf"
    and x: "x = fadd (with_gust (max_gust_mph hs) (fadd s1 (fmul (Fin 2) tf)))
              (fmul (float_lit (1 / 5)) qf)"
    by (cases "with_prob w p"; cases "float_of_int (min (thunder_hours hs) 10)";
        cases "float_of_int (max_pop hs)") (auto simp add: raw_score_def float_lit_consts)
  from assms(8) obtain s1' tf' qf' where s1': "with_prob w' p' = Inr s1'"
    and tf': "float_of_int (min (thunder_hours hs') 10) = Inr tf'"
    and qf': "float_of_int (max_pop hs') = Inr qf'"
    and x': "x' = fadd (with_gust (max_gust_mph hs') (fadd s1' (fmul (Fin 2) tf')))
              (fmul (float_lit (1 / 5)) qf')"
    by (cases "with_prob w' p'"; cases "float_of_int (min (thunder_hours hs') 10)";
        cases "float_of_int (max_pop hs')") (auto simp add: raw_score_def float_lit_consts)
  have a: "fbelow s1 s1'" using assms(1-3) s1 s1' by (rule with_prob_mono)
  have "min (thunder_hours hs) 10 \<le> min (thunder_hours hs') 10" using assms(4) by simp
  from float_of_int_mono [OF this tf tf'] have b: "fbelow (fmul (Fin 2) tf) (fmul (Fin 2) tf')"
    by (rule fmul_lit_mono)
  have c: "fbelow (fadd s1 (fmul (Fin 2) tf)) (fadd s1' (fmul (Fin 2) tf'))"
    using a b by (rule fadd_mono)
  have d: "fbelow (with_gust (max_gust_mph hs) (fadd s1 (fmul (Fin 2) tf)))
      (with_gust (max_gust_mph hs') (fadd s1' (fmul (Fin 2) tf')))"
    using c assms(6) by (intro with_gust_mono) simp_all
  have e: "fbelow (fmul (float_lit (1 / 5)) qf) (fmul (float_lit (1 / 5)) qf')"
    using float_of_int_mono [OF assms(5) qf qf'] by (rule fmul_lit_mono)
  show ?thesis unfolding x x' using d e by (rule fadd_mono)
qed

lemma tier_le_weight:
  assumes "tier_le c c'"
  shows "CAT_WEIGHTS_get c 0 \<le> CAT_WEIGHTS_get c' 0"
proof (cases "c = c'")
  case False
  with assms obtain i j where "tier_index c = Some i" "tier_index c' = Some j" "i \<le> j"
    by (auto simp add: tier_le_def split: option.splits)
  then show ?thesis
    by (auto simp add: tier_index_def CAT_WEIGHTS_get_def CAT_WEIGHTS_def split: if_splits)
qed simp


lemma score_of_total:
  assumes "inputs_float_sized p hs"
  shows "\<exists>s. score_of c p als hs = Inr s"
  using raw_score_cases [of "CAT_WEIGHTS_get c 0" p hs] assms
  by (auto simp add: score_of_def score_likelihood_float)

lemma float_sized_numeral [simp]:
  "float_sized 0" "float_sized 1" "float_sized (numeral k) = (numeral k < (2::int) ^ 1023)"
  by (simp_all add: float_sized_def)

subsection \<open>Matching\<close>

lemma lower_Nil [simp]: "lower [] = []" and lower_Cons [simp]: "lower (c # s) = lower_char c # lower s"
  by (simp_all add: lower_def)

lemma length_lower [simp]: "length (lower s) = length s"
  by (simp add: lower_def)

lemma matches_Lit_ic:
  "matches True (Lit w) s \<noteq> [] \<longleftrightarrow> prefix (lower w) (lower s)"
proof -
  have "prefix (lower w) (lower s) \<longleftrightarrow> length w \<le> length s \<and> take (length w) (lower s) = lower w"
    by (metis length_lower prefix_length_le take_is_prefix append_eq_conv_conj prefix_def)
  also have "take (length w) (lower s) = lower (take (length w) s)"
    by (simp add: lower_def take_map)
  finally show ?thesis by auto
qed

lemma search_eq_None_Cons:
  "search ic r (c # s) = None \<longleftrightarrow> matches ic r (c # s) = [] \<and> search ic r s = None"
  by (auto split: list.splits)

lemma search_eq_None_Nil: "search ic r [] = None \<longleftrightarrow> matches ic r [] = []"
  by (auto split: list.splits)

lemma lower_words [simp]:
  "lower ''thunder'' = ''thunder''" "lower ''t-storm'' = ''t-storm''" "lower ''storm'' = ''storm''"
  by (simp_all add: lower_char_def ord_def)

lemma thunder_matches:
  "matches True thunder_re t \<noteq> [] \<longleftrightarrow>
     prefix ''thunder'' (lower t) \<or> prefix ''t-storm'' (lower t) \<or> prefix ''storm'' (lower t)"
proof -
  have "matches True thunder_re t \<noteq> [] \<longleftrightarrow>
      matches True (Lit ''thunder'') t \<noteq> [] \<or> matches True (Lit ''t-storm'') t \<noteq> [] \<or>
      matches True (Lit ''storm'') t \<noteq> []"
    unfolding thunder_re_def by (simp only: matches.simps map_is_Nil_conv append_is_Nil_conv de_Morgan_conj)
  then show ?thesis by (simp only: matches_Lit_ic lower_words)
qed

lemma thunder_search:
  "search True thunder_re s \<noteq> None \<longleftrightarrow>
     py_in ''thunder'' (lower s) \<or> py_in ''t-storm'' (lower s) \<or> py_in ''storm'' (lower s)"
proof (induction s)
  case Nil
  have "matches True thunder_re [] = []" by (simp add: thunder_re_def)
  then show ?case by (simp add: search_eq_None_Nil py_in_def)
next
  case (Cons c s)
  have "search True thunder_re (c # s) \<noteq> None \<longleftrightarrow>
      matches True thunder_re (c # s) \<noteq> [] \<or> search True thunder_re s \<noteq> None"
    by (simp only: search_eq_None_Cons de_Morgan_conj)
  then show ?case
    unfolding Cons.IH thunder_matches py_in_def lower_Cons sublist_Cons_right by blast
qed

lemma char_classes:
  "is_digit c \<Longrightarrow> \<not> is_space c" "is_digit c \<Longrightarrow> c \<noteq> CHR ''%''" "is_space c \<Longrightarrow> c \<noteq> CHR ''%''"
  by (auto simp add: is_digit_def is_space_def ord_def)

lemma rev_upt_Suc: "i \<le> m \<Longrightarrow> rev [i ..< Suc m] = m # rev [i ..< m]"
  by simp

lemma concat_map_Nil: "(\<And>k. k \<in> set ks \<Longrightarrow> f k = []) \<Longrightarrow> concat (map f ks) = []"
  by (induction ks) simp_all

lemma drop_in_takeWhile:
  assumes "k < length (takeWhile P s)"
  shows "\<exists>c t. drop k s = c # t \<and> P c"
proof -
  have k: "k < length s" using assms length_takeWhile_le [of P s] by (rule less_le_trans)
  have "takeWhile P s ! k \<in> set (takeWhile P s)" using assms by (rule nth_mem)
  then have "P (takeWhile P s ! k)" by (rule set_takeWhileD [THEN conjunct2])
  then have "P (s ! k)" using assms by (simp add: takeWhile_nth)
  moreover have "drop k s = s ! k # drop (Suc k) s" using k by (simp add: Cons_nth_drop_Suc)
  ultimately show ?thesis by blast
qed

lemma drop_length_takeWhile: "drop (length (takeWhile P s)) s = dropWhile P s"
  by (metis append_eq_conv_conj takeWhile_dropWhile_id)

lemma take_length_takeWhile: "take (length (takeWhile P s)) s = takeWhile P s"
  by (metis append_eq_conv_conj takeWhile_dropWhile_id)

text \<open>The repetitions: only the longest run can be followed by the rest of the pattern.\<close>

lemma greedy_only:
  assumes "\<And>c t. P c \<Longrightarrow> f (c # t) = []"
  shows "concat (map (\<lambda>k. f (drop k s)) (rev [0 ..< Suc (length (takeWhile P s))]))
         = f (dropWhile P s)"
proof -
  let ?m = "length (takeWhile P s)"
  have "f (drop k s) = []" if "k \<in> set (rev [0 ..< ?m])" for k
  proof -
    from that have "k < ?m" by simp
    from drop_in_takeWhile [OF this] assms show ?thesis by auto
  qed
  then have "concat (map (\<lambda>k. f (drop k s)) (rev [0 ..< ?m])) = []" by (rule concat_map_Nil)
  then show ?thesis by (simp add: drop_length_takeWhile)
qed

lemma matches_Lit_percent:
  "matches False (Lit ''%'') r = (case r of [] \<Rightarrow> [] | c # u \<Rightarrow> if c = CHR ''%'' then [([], u)] else [])"
  by (cases r) auto

lemma matches_Star_Lit:
  "matches False (Seq (Star is_space) (Lit ''%'')) t =
     (case dropWhile is_space t of [] \<Rightarrow> [] | c # u \<Rightarrow> if c = CHR ''%'' then [([], u)] else [])"
proof -
  let ?f = "\<lambda>t. map (\<lambda>(g2, u). ([] @ g2, u)) (matches False (Lit ''%'') t)"
  have "matches False (Seq (Star is_space) (Lit ''%'')) t =
      concat (map (\<lambda>k. ?f (drop k t)) (rev [0 ..< Suc (length (takeWhile is_space t))]))"
    by (simp add: comp_def)
  also have "\<dots> = ?f (dropWhile is_space t)"
    by (rule greedy_only) (auto dest: char_classes)
  also have "\<dots> = (case dropWhile is_space t of [] \<Rightarrow> [] | c # u \<Rightarrow> if c = CHR ''%'' then [([], u)] else [])"
    unfolding matches_Lit_percent by (simp split: list.splits)
  finally show ?thesis .
qed

lemma matches_Group_Plus:
  "matches ic (Group (Plus P)) s =
     map (\<lambda>k. ([take k s], drop k s)) (rev [1 ..< Suc (length (takeWhile P s))])"
proof -
  have "length s - length (drop k s) = k" if "k \<in> set (rev [1 ..< Suc (length (takeWhile P s))])" for k
  proof -
    from that have "k \<le> length (takeWhile P s)" by auto
    then have "k \<le> length s" using length_takeWhile_le [of P s] by (rule le_trans)
    then show ?thesis by simp
  qed
  then show ?thesis by (simp add: comp_def)
qed

lemma matches_Seq_Group_Plus:
  "matches ic (Seq (Group (Plus P)) r) s =
     concat (map (\<lambda>k. map (\<lambda>(g2, u). (take k s # g2, u)) (matches ic r (drop k s)))
       (rev [1 ..< Suc (length (takeWhile P s))]))"
  by (simp only: matches.simps(4) matches_Group_Plus map_map comp_def prod.case append_Cons append_Nil)

lemma percent_tail_digit:
  assumes "is_digit c"
  shows "matches False (Seq (Star is_space) (Lit ''%'')) (c # t) = []"
  using assms by (simp only: matches_Star_Lit) (auto dest: char_classes)

lemma percent_tail_cases:
  assumes "ds \<noteq> []"
  shows "map (\<lambda>(g2, u). (ds # g2, u))
           (case r of [] \<Rightarrow> [] | c # u \<Rightarrow> if c = CHR ''%'' then [([], u)] else [])
         = (case (if ds \<noteq> [] \<and> (case r of [] \<Rightarrow> False | c # _ \<Rightarrow> c = CHR ''%'')
                  then Some ds else None) of
              None \<Rightarrow> []
            | Some ds \<Rightarrow> [([ds], tl r)])"
  using assms by (cases r) simp_all

lemma percent_matches:
  "matches False percent_re s =
     (case leading_percent s of
        None \<Rightarrow> []
      | Some ds \<Rightarrow> [([ds], tl (dropWhile is_space (dropWhile is_digit s)))])"
proof -
  let ?m = "length (takeWhile is_digit s)"
  let ?T = "matches False (Seq (Star is_space) (Lit ''%''))"
  let ?f = "\<lambda>k. map (\<lambda>(g2, u). (take k s # g2, u)) (?T (drop k s))"
  have M: "matches False percent_re s = concat (map ?f (rev [1 ..< Suc ?m]))"
    unfolding percent_re_def by (rule matches_Seq_Group_Plus)
  show ?thesis
  proof (cases "?m = 0")
    case True
    then have "takeWhile is_digit s = []" by simp
    then show ?thesis using True by (simp add: M leading_percent_def)
  next
    case False
    then have ne: "takeWhile is_digit s \<noteq> []" by auto
    have "?f k = []" if "k \<in> set (rev [1 ..< ?m])" for k
    proof -
      from that have "k < ?m" by simp
      from drop_in_takeWhile [OF this] obtain c t where "drop k s = c # t" "is_digit c" by blast
      then show ?thesis by (simp only: percent_tail_digit) simp
    qed
    then have "concat (map ?f (rev [1 ..< ?m])) = []" by (rule concat_map_Nil)
    moreover have "1 \<le> ?m" using False by arith
    then have "rev [1 ..< Suc ?m] = ?m # rev [1 ..< ?m]" by (rule rev_upt_Suc)
    ultimately have "matches False percent_re s = ?f ?m" by (simp only: M list.map concat.simps append_Nil2)
    also have "\<dots> = map (\<lambda>(g2, u). (takeWhile is_digit s # g2, u)) (?T (dropWhile is_digit s))"
      by (simp only: take_length_takeWhile drop_length_takeWhile)
    also have "\<dots> = (case leading_percent s of
        None \<Rightarrow> []
      | Some ds \<Rightarrow> [([ds], tl (dropWhile is_space (dropWhile is_digit s)))])"
      unfolding matches_Star_Lit leading_percent_def Let_def using ne
      by (intro percent_tail_cases)
    finally show ?thesis .
  qed
qed

lemma percent_search: "search_int percent_re s = first_number_percent s"
proof -
  have "(case search False percent_re s of Some (g # _) \<Rightarrow> Some (dec_value g) | _ \<Rightarrow> None)
      = first_number_percent s"
  proof (induction s)
    case Nil
    show ?case by (simp add: percent_matches leading_percent_def)
  next
    case (Cons c s)
    show ?case
      using Cons.IH by (cases "leading_percent (c # s)") (simp_all add: percent_matches)
  qed
  then show ?thesis by (simp add: search_int_def)
qed

lemma digits_search:
  "search_int digits_re s =
     (case dropWhile (\<lambda>c. \<not> is_digit c) s of [] \<Rightarrow> None | t \<Rightarrow> Some (dec_value (takeWhile is_digit t)))"
proof -
  have "(case search False digits_re s of Some (g # _) \<Rightarrow> Some (dec_value g) | _ \<Rightarrow> None)
      = (case dropWhile (\<lambda>c. \<not> is_digit c) s of [] \<Rightarrow> None | t \<Rightarrow> Some (dec_value (takeWhile is_digit t)))"
  proof (induction s)
    case Nil
    show ?case by (simp add: digits_re_def)
  next
    case (Cons c s)
    show ?case
    proof (cases "is_digit c")
      case True
      let ?m = "length (takeWhile is_digit (c # s))"
      have "1 \<le> ?m" using True by simp
      then have "rev [1 ..< Suc ?m] = ?m # rev [1 ..< ?m]" by (rule rev_upt_Suc)
      then have "matches False digits_re (c # s) =
          ([take ?m (c # s)], drop ?m (c # s)) # map (\<lambda>k. ([take k (c # s)], drop k (c # s))) (rev [1 ..< ?m])"
        unfolding digits_re_def matches_Group_Plus by simp
      then show ?thesis using True by (simp add: take_length_takeWhile del: upt_Suc)
    next
      case False
      then have "matches False digits_re (c # s) = []"
        unfolding digits_re_def matches_Group_Plus by simp
      then show ?thesis using False Cons.IH by simp
    qed
  qed
  then show ?thesis by (simp add: search_int_def)
qed

lemma case_option_case_list:
  "(case (case xs of [] \<Rightarrow> None | y # ys \<Rightarrow> Some (f (y # ys))) of None \<Rightarrow> d | Some n \<Rightarrow> n)
     = (case xs of [] \<Rightarrow> d | y # ys \<Rightarrow> f (y # ys))"
  by (cases xs) simp_all

lemma gust_text: "(case search_int digits_re s of None \<Rightarrow> 0 | Some n \<Rightarrow> n) = first_embedded_integer s"
  unfolding digits_search first_embedded_integer_def by (rule case_option_case_list)

subsection \<open>The hourly summary\<close>

lemma thunder_search_Nil: "matches True thunder_re [] = []"
  by (simp add: thunder_re_def)

lemma mentions_thunder_eq:
  assumes "mentions_thunder p = Inr b"
  shows "b = has_thunder_text p"
proof (cases "dict_get p ''shortForecast'' (JStr [])")
  case (JStr sf)
  show ?thesis
  proof (cases "sf = []")
    case True
    then show ?thesis using assms JStr
      by (simp add: mentions_thunder_def has_thunder_text_def py_or_def thunder_search_Nil py_in_def)
  next
    case False
    then have "b = (search True thunder_re sf \<noteq> None)" using assms JStr
      by (simp add: mentions_thunder_def py_or_def)
    then show ?thesis using JStr by (simp only: thunder_search has_thunder_text_def json.case)
  qed
qed (use assms in \<open>auto simp add: mentions_thunder_def has_thunder_text_def py_or_def thunder_search_Nil split: if_splits\<close>)

lemma trunc_rat_int [simp]: "trunc_rat (of_int n) = n" "trunc_rat 0 = 0" "trunc_rat 1 = 1"
  by (simp_all add: trunc_rat_def)

lemma period_gust_eq:
  assumes "period_gust p = Inr g"
  shows "g = gust_value p"
proof (cases "dict_get p ''windGust'' JNull")
  case (JInt n)
  then show ?thesis using assms
    by (auto simp add: period_gust_def gust_value_def float_of_int_def Let_def split: if_splits)
next
  case (JFloat x)
  then show ?thesis using assms
    by (cases x) (auto simp add: period_gust_def gust_value_def)
next
  case (JStr s)
  then show ?thesis using assms
    by (simp add: period_gust_def gust_value_def gust_text)
qed (use assms in \<open>auto simp add: period_gust_def gust_value_def\<close>)

lemma period_pop_eq: "period_pop p = pop_value p"
proof (cases "safe_get (JObj p) [''probabilityOfPrecipitation'', ''value''] (JInt 0)")
  case (JFloat x)
  then show ?thesis
    by (cases x) (auto simp add: period_pop_def pop_value_def clamp_pop_def py_or_def trunc_rat_def)
next
  case (JStr s)
  have "int_of_str [] = None" by (simp add: int_of_str_def strip_def)
  then show ?thesis using JStr
    by (auto simp add: period_pop_def pop_value_def clamp_pop_def py_or_def split: option.splits)
qed (auto simp add: period_pop_def pop_value_def clamp_pop_def py_or_def)

lemma Max_set_fold: "Max (set (max a x # xs)) = Max (set (a # x # xs))"
proof (cases "xs = []")
  case True
  then show ?thesis by (simp add: max.commute)
next
  case False
  then show ?thesis by (simp add: max.assoc)
qed

lemma summarize_step_fields:
  assumes "summarize_step acc p = Inr acc'"
  shows "thunder_hours acc' = thunder_hours acc + (if has_thunder_text p then 1 else 0)"
    and "max_pop acc' = max (max_pop acc) (pop_value p)"
    and "max_gust_mph acc' = max (max_gust_mph acc) (gust_value p)"
proof -
  from assms obtain b g where b: "mentions_thunder p = Inr b" and g: "period_gust p = Inr g"
    and acc': "acc' = \<lparr> thunder_hours = (if b then thunder_hours acc + 1 else thunder_hours acc),
              max_pop = max (max_pop acc) (period_pop p),
              max_gust_mph = max (max_gust_mph acc) g \<rparr>"
    by (cases "mentions_thunder p"; cases "period_gust p") (auto simp add: summarize_step_def)
  note mentions_thunder_eq [OF b] period_gust_eq [OF g]
  then show "thunder_hours acc' = thunder_hours acc + (if has_thunder_text p then 1 else 0)"
    and "max_pop acc' = max (max_pop acc) (pop_value p)"
    and "max_gust_mph acc' = max (max_gust_mph acc) (gust_value p)"
    by (simp_all add: acc' period_pop_eq)
qed

lemma summarize_loop_result:
  assumes "summarize_loop acc ps = Inr r"
  shows "thunder_hours r = thunder_hours acc + int (length (filter has_thunder_text ps)) \<and>
         max_pop r = Max (set (max_pop acc # map pop_value ps)) \<and>
         max_gust_mph r = Max (set (max_gust_mph acc # map gust_value ps))"
  using assms
proof (induction ps arbitrary: acc)
  case Nil
  then show ?case by simp
next
  case (Cons p ps)
  from Cons.prems obtain acc' where s: "summarize_step acc p = Inr acc'"
    and l: "summarize_loop acc' ps = Inr r"
    by (cases "summarize_step acc p") simp_all
  note f = summarize_step_fields [OF s]
  from Cons.IH [OF l] show ?case
    unfolding f list.map Max_set_fold by simp
qed

lemma period_ok_step:
  assumes "period_ok p"
  shows "\<exists>acc'. summarize_step acc p = Inr acc'"
proof -
  have t: "\<exists>b. mentions_thunder p = Inr b"
    using assms by (auto simp add: period_ok_def mentions_thunder_def split: json.splits)
  have g: "\<exists>g. period_gust p = Inr g"
  proof (cases "dict_get p ''windGust'' JNull")
    case (JInt n)
    with assms have "float_sized n" by (simp add: period_ok_def)
    from float_of_int_sized [OF this] show ?thesis using JInt by (auto simp add: period_gust_def)
  next
    case (JFloat x)
    with assms show ?thesis by (cases x) (auto simp add: period_ok_def period_gust_def)
  qed (auto simp add: period_gust_def)
  from t g show ?thesis by (auto simp add: summarize_step_def)
qed

lemma periods_ok_loop:
  assumes "list_all period_ok ps"
  shows "\<exists>r. summarize_loop acc ps = Inr r"
  using assms
proof (induction ps arbitrary: acc)
  case Nil
  show ?case by simp
next
  case (Cons p ps)
  from Cons.prems have "period_ok p" and ps: "list_all period_ok ps" by simp_all
  from period_ok_step [OF this(1)] obtain acc' where "summarize_step acc p = Inr acc'" ..
  with Cons.IH [OF ps, of acc'] show ?case by simp
qed

lemma pop_value_range: "0 \<le> pop_value p \<and> pop_value p \<le> 100"
  unfolding period_pop_eq [symmetric] period_pop_def clamp_pop_def by (simp split: sum.split)

lemma float_of_int_neg_numeral:
  assumes "(numeral k :: int) < 2 ^ 52"
  shows "float_of_int (- numeral k) = Inr (Fin (- numeral k))"
proof -
  have "(numeral k :: int) < 2 ^ 53" using assms by (rule less_trans) simp
  then have "\<bar>- numeral k :: int\<bar> < 2 ^ 53" by simp
  from float_of_int_small [OF this] show ?thesis by simp
qed

lemma trunc_rat_numeral [simp]:
  "trunc_rat (numeral k) = numeral k" "trunc_rat (- numeral k) = - numeral k"
  using trunc_rat_int(1) [of "numeral k"] trunc_rat_int(1) [of "- numeral k"] by simp_all

lemma sample_periods_ok: "list_all period_ok sample_periods"
  by code_simp

lemma odd_periods_ok: "list_all period_ok odd_periods"
  by code_simp

lemma sample_periods_values:
  "int (length (filter has_thunder_text sample_periods)) = 2"
  "Max (set (0 # map pop_value sample_periods)) = 100"
  "Max (set (0 # map gust_value sample_periods)) = 50"
  by code_simp+

subsection \<open>The alert flags and the outlook resolvers\<close>

lemma classify_fold:
  "has_watch (foldl (classify_step fr) acc fs) \<longleftrightarrow>
     has_watch acc \<or> (\<exists>f\<in>set fs. py_in ''tornado watch'' (alert_text fr f))"
  "has_warning (foldl (classify_step fr) acc fs) \<longleftrightarrow>
     has_warning acc \<or> (\<exists>f\<in>set fs. py_in ''tornado warning'' (alert_text fr f))"
  "has_pds (foldl (classify_step fr) acc fs) \<longleftrightarrow>
     has_pds acc \<or> (\<exists>f\<in>set fs. py_in ''particularly dangerous situation'' (alert_text fr f)
                                \<or> py_in ''pds'' (alert_text fr f))"
  by (induction fs arbitrary: acc; auto simp add: classify_step_def Let_def)+

lemma sample_alerts_text:
  "(\<exists>f\<in>set sample_alerts. py_in ''tornado warning'' (alert_text any_float_text f)) = True"
  "(\<exists>f\<in>set sample_alerts. py_in ''tornado watch'' (alert_text any_float_text f)) = False"
  "(\<exists>f\<in>set sample_alerts. py_in ''particularly dangerous situation'' (alert_text any_float_text f)
      \<or> py_in ''pds'' (alert_text any_float_text f)) = False"
  by code_simp+

lemma label_attribute_four:
  "label_attribute [a, b, c, d] props =
     py_or (dict_get props a JNull) (py_or (dict_get props b JNull)
       (py_or (dict_get props c JNull) (py_or (dict_get props d JNull) (JStr []))))"
  by (simp add: label_attribute_def py_or_def)

lemma label_attribute_two:
  "label_attribute [a, b] props =
     py_or (dict_get props a JNull) (py_or (dict_get props b JNull) (JStr []))"
  by (simp add: label_attribute_def py_or_def)

lemma match_category_find: "match_category label = find (\<lambda>v. py_in v label) vocabulary"
  by (simp add: match_category_def vocabulary_def)

lemma feature_properties_dict:
  assumes "feats = JArr (JObj f # fs)"
  shows "feature_properties feats = Inr (dict_get f ''properties'' (JObj []))"
  using assms by (simp add: feature_properties_def)

lemma percent_in_eq: "percent_in fr v = first_number_percent (py_str fr v)"
  by (simp add: percent_in_def percent_search)

lemma first_percent_eq: "first_percent fr vs = first_number_percent_in (map (py_str fr) vs)"
  by (induction vs) (simp_all add: percent_in_eq split: option.split)

section \<open>Properties of the likelihood score\<close>

text \<open>
  Claim C1.  For every categorical label, optional percentage, alert flags and hourly
  summary, the score of the result returned by \<^verbatim>\<open>score_likelihood\<close> is a finite float in
  \<open>[0, 100]\<close>.  The call returns for all inputs whose integers are below \<open>2^1023\<close> in
  magnitude; the only exception it can raise is the \<^verbatim>\<open>OverflowError\<close> of converting a
  larger integer to float.
\<close>

theorem score_likelihood_range:
  "case score_likelihood c p als hs of
     Inr r \<Rightarrow> \<exists>q. score_0_100 r = PyFloat (Fin q) \<and> 0 \<le> q \<and> q \<le> 100
   | Inl e \<Rightarrow> e = OverflowError \<and> \<not> inputs_float_sized p hs"
  using raw_score_cases [of "CAT_WEIGHTS_get c 0" p hs]
  by (auto simp add: score_likelihood_float clip_round_range)

theorem score_likelihood_range_witness:
  "\<exists>r q. score_likelihood (Some ''SLGT'') (Some 10)
            \<lparr>has_watch = False, has_warning = False, has_pds = False\<rparr>
            \<lparr>thunder_hours = 3, max_pop = 60, max_gust_mph = 40\<rparr> = Inr r \<and>
     score_0_100 r = PyFloat (Fin q) \<and> 0 \<le> q \<and> q \<le> 100"
  using score_likelihood_range [where c = "Some ''SLGT''" and p = "Some 10"
      and als = "\<lparr>has_watch = False, has_warning = False, has_pds = False\<rparr>"
      and hs = "\<lparr>thunder_hours = 3, max_pop = 60, max_gust_mph = 40\<rparr>"]
  by (cases "score_likelihood (Some ''SLGT'') (Some 10)
      \<lparr>has_watch = False, has_warning = False, has_pds = False\<rparr>
      \<lparr>thunder_hours = 3, max_pop = 60, max_gust_mph = 40\<rparr>")
    (simp_all add: inputs_float_sized_def)

text \<open>
  Claim C2.  Whatever the other inputs are, a returned score is at least 70 when the
  watch flag is set, at least 90 when the warning flag is set and at least 98 when the
  PDS flag is set; the floors compose, so a PDS alert on the lowest base inputs still
  scores at least 98.
\<close>

theorem alert_floors_dominate:
  "case score_likelihood c p als hs of
     Inr r \<Rightarrow> \<exists>q. score_0_100 r = PyFloat (Fin q) \<and>
                 (has_watch als \<longrightarrow> 70 \<le> q) \<and> (has_warning als \<longrightarrow> 90 \<le> q) \<and>
                 (has_pds als \<longrightarrow> 98 \<le> q)
   | Inl e \<Rightarrow> e = OverflowError \<and> \<not> inputs_float_sized p hs"
proof -
  have fl: "\<exists>q. clip_round (alert_floors als x) = Fin q \<and>
                 (has_watch als \<longrightarrow> 70 \<le> q) \<and> (has_warning als \<longrightarrow> 90 \<le> q) \<and>
                 (has_pds als \<longrightarrow> 98 \<le> q)" for x
  proof -
    obtain q where q: "clip_round (alert_floors als x) = Fin q"
      using clip_round_range by blast
    have "70 \<le> q" if "has_watch als"
      using clip_round_floor [of 70 "alert_floors als x" q] alert_floors_watch [OF that] q by simp
    moreover have "90 \<le> q" if "has_warning als"
      using clip_round_floor [of 90 "alert_floors als x" q] alert_floors_warning [OF that] q by simp
    moreover have "98 \<le> q" if "has_pds als"
      using clip_round_floor [of 98 "alert_floors als x" q] alert_floors_pds [OF that] q by simp
    ultimately show ?thesis using q by blast
  qed
  show ?thesis
    using raw_score_cases [of "CAT_WEIGHTS_get c 0" p hs] fl
    by (auto simp add: score_likelihood_float)
qed

theorem alert_floors_dominate_witness:
  "\<exists>r q. score_likelihood None None
            \<lparr>has_watch = True, has_warning = True, has_pds = True\<rparr>
            \<lparr>thunder_hours = 0, max_pop = 0, max_gust_mph = 0\<rparr> = Inr r \<and>
     score_0_100 r = PyFloat (Fin q) \<and> 98 \<le> q"
  using alert_floors_dominate [where c = None and p = None
      and als = "\<lparr>has_watch = True, has_warning = True, has_pds = True\<rparr>"
      and hs = "\<lparr>thunder_hours = 0, max_pop = 0, max_gust_mph = 0\<rparr>"]
  by (cases "score_likelihood None None
      \<lparr>has_watch = True, has_warning = True, has_pds = True\<rparr>
      \<lparr>thunder_hours = 0, max_pop = 0, max_gust_mph = 0\<rparr>")
    (auto simp add: inputs_float_sized_def)

text \<open>
  Claim C3.  With the alert flags fixed, the score does not decrease when the categorical
  tier moves up in \<open>none < TSTM < MRGL < SLGT < ENH < MDT < HIGH\<close>, when the percentage
  grows (an absent percentage counting below every non-negative one), or when
  \<^verbatim>\<open>thunder_hours\<close>, \<^verbatim>\<open>max_pop\<close> or \<^verbatim>\<open>max_gust_mph\<close> grows.  The theorem lets all five
  move at once; holding four of them fixed gives the monotonicity in the fifth.
\<close>

theorem score_monotone:
  assumes "tier_le c c'" and "pct_le p p'"
    and "thunder_hours hs \<le> thunder_hours hs'" and "max_pop hs \<le> max_pop hs'"
    and "max_gust_mph hs \<le> max_gust_mph hs'"
    and "score_of c p als hs = Inr s" and "score_of c' p' als hs' = Inr s'"
  shows "\<exists>q q'. s = PyFloat (Fin q) \<and> s' = PyFloat (Fin q') \<and> q \<le> q'"
proof -
  let ?w = "CAT_WEIGHTS_get c 0" and ?w' = "CAT_WEIGHTS_get c' 0"
  from assms(6) obtain x where x: "raw_score ?w p hs = Inr x"
    and s: "s = PyFloat (clip_round (alert_floors als x))"
    by (cases "raw_score ?w p hs") (auto simp add: score_of_def score_likelihood_float)
  from assms(7) obtain x' where x': "raw_score ?w' p' hs' = Inr x'"
    and s': "s' = PyFloat (clip_round (alert_floors als x'))"
    by (cases "raw_score ?w' p' hs'") (auto simp add: score_of_def score_likelihood_float)
  have "\<bar>?w\<bar> < 2 ^ 52" using CAT_WEIGHTS_get_range [of c] by simp
  then have "fbelow x x'"
    using tier_le_weight [OF assms(1)] assms(2-5) x x' by (rule raw_score_mono)
  then have m: "fbelow (clip_round (alert_floors als x)) (clip_round (alert_floors als x'))"
    by (intro clip_round_mono alert_floors_mono)
  obtain q where q: "clip_round (alert_floors als x) = Fin q" using clip_round_range by blast
  obtain q' where q': "clip_round (alert_floors als x') = Fin q'" using clip_round_range by blast
  show ?thesis using m by (simp add: s s' q q')
qed

theorem score_monotone_witness:
  "\<exists>q q'. score_of (Some ''MRGL'') None
            \<lparr>has_watch = False, has_warning = False, has_pds = False\<rparr>
            \<lparr>thunder_hours = 1, max_pop = 20, max_gust_mph = 30\<rparr> = Inr (PyFloat (Fin q)) \<and>
     score_of (Some ''SLGT'') (Some 10)
            \<lparr>has_watch = False, has_warning = False, has_pds = False\<rparr>
            \<lparr>thunder_hours = 3, max_pop = 60, max_gust_mph = 40\<rparr> = Inr (PyFloat (Fin q')) \<and>
     q \<le> q'"
proof -
  let ?als = "\<lparr>has_watch = False, has_warning = False, has_pds = False\<rparr>"
  let ?h = "\<lparr>thunder_hours = 1, max_pop = 20, max_gust_mph = 30\<rparr>"
  let ?h' = "\<lparr>thunder_hours = 3, max_pop = 60, max_gust_mph = 40\<rparr>"
  obtain s where s: "score_of (Some ''MRGL'') None ?als ?h = Inr s"
    using score_of_total [of None ?h] by (auto simp add: inputs_float_sized_def)
  obtain s' where s': "score_of (Some ''SLGT'') (Some 10) ?als ?h' = Inr s'"
    using score_of_total [of "Some 10" ?h'] by (auto simp add: inputs_float_sized_def)
  have t: "tier_le (Some ''MRGL'') (Some ''SLGT'')" by (simp add: tier_le_def tier_index_def)
  show ?thesis
    using score_monotone [OF t _ _ _ _ s s'] by (simp add: s s')
qed

text \<open>
  Claim C9.  For the label \<open>SLGT\<close>, percentage 10, three thunder hours, a maximal gust of
  40 mph, a maximal precipitation probability of 60 and no alert, the score is exactly
  \<open>60.0\<close>; with the warning flag set and everything else unchanged it is exactly \<open>90.0\<close>.
\<close>

theorem end_to_end_scenarios:
  "score_of (Some ''SLGT'') (Some 10)
     \<lparr>has_watch = False, has_warning = False, has_pds = False\<rparr>
     \<lparr>thunder_hours = 3, max_pop = 60, max_gust_mph = 40\<rparr> = Inr (PyFloat (Fin 60)) \<and>
   score_of (Some ''SLGT'') (Some 10)
     \<lparr>has_watch = False, has_warning = True, has_pds = False\<rparr>
     \<lparr>thunder_hours = 3, max_pop = 60, max_gust_mph = 40\<rparr> = Inr (PyFloat (Fin 90))"
proof -
  have w: "CAT_WEIGHTS_get (Some ''SLGT'') 0 = 25"
    by (simp add: CAT_WEIGHTS_get_def CAT_WEIGHTS_def)
  show ?thesis
    by (simp add: score_of_def score_likelihood_float w raw_score_scenario alert_floors_def
        fmax_def clip_round_60 clip_round_90)
qed

text \<open>
  Claim C10.  A label that is not in the vocabulary contributes the base weight 0: the
  call behaves exactly as with the label \<open>none\<close>, returning the same score or raising the
  same exception, so no label makes \<^verbatim>\<open>score_likelihood\<close> fail.
\<close>

theorem unknown_label_scores_as_none:
  assumes "l \<notin> {''TSTM'', ''MRGL'', ''SLGT'', ''ENH'', ''MDT'', ''HIGH''}"
  shows "CAT_WEIGHTS_get (Some l) 0 = 0 \<and> score_of (Some l) p als hs = score_of None p als hs"
proof -
  have w: "CAT_WEIGHTS_get (Some l) 0 = 0" using assms
    by (simp add: CAT_WEIGHTS_get_def CAT_WEIGHTS_def)
  have n: "CAT_WEIGHTS_get None 0 = 0"
    by (simp add: CAT_WEIGHTS_get_def CAT_WEIGHTS_def)
  show ?thesis
    by (cases "raw_score 0 p hs") (simp_all add: w n score_of_def score_likelihood_float)
qed

theorem unknown_label_scores_as_none_witness:
  "CAT_WEIGHTS_get (Some ''Enhanced'') 0 = 0 \<and>
   score_of (Some ''Enhanced'') (Some 10)
     \<lparr>has_watch = False, has_warning = False, has_pds = False\<rparr>
     \<lparr>thunder_hours = 3, max_pop = 60, max_gust_mph = 40\<rparr> =
   score_of None (Some 10)
     \<lparr>has_watch = False, has_warning = False, has_pds = False\<rparr>
     \<lparr>thunder_hours = 3, max_pop = 60, max_gust_mph = 40\<rparr>"
  using unknown_label_scores_as_none [where l = "''Enhanced''" and p = "Some 10"
      and als = "\<lparr>has_watch = False, has_warning = False, has_pds = False\<rparr>"
      and hs = "\<lparr>thunder_hours = 3, max_pop = 60, max_gust_mph = 40\<rparr>"]
  by simp

section \<open>Properties of the hourly summary\<close>

text \<open>
  Claim C4, as stated, fails: it takes \<^verbatim>\<open>max_gust_mph\<close> to be the maximum over the periods
  of the gust, a numeric gust being used directly.  The running maximum of the script
  starts at 0, so a single period with the numeric gust \<open>-5\<close> gives 0 and not \<open>-5\<close>.
\<close>

theorem claimed_max_gust_counterexample:
  "summarize_hourly [[(''windGust'', JInt (- 5))]]
     = Inr \<lparr> thunder_hours = 0, max_pop = 0, max_gust_mph = 0 \<rparr> \<and>
   claimed_max_gust [[(''windGust'', JInt (- 5))]] = - 5"
  by (simp add: summarize_hourly_def summarize_step_def mentions_thunder_def period_gust_def
      period_pop_def clamp_pop_def dict_get_def py_or_def thunder_search_Nil
      float_of_int_neg_numeral claimed_max_gust_def claimed_gust_def)

text \<open>
  Claim C4, amended.  Whenever \<^verbatim>\<open>summarize_hourly\<close> returns, \<^verbatim>\<open>thunder_hours\<close> is the number
  of periods whose short description contains, in any letter case, \<open>thunder\<close>, \<open>t-storm\<close>
  or \<open>storm\<close> (each period once); \<^verbatim>\<open>max_pop\<close> is the greatest of 0 and the periods'
  precipitation probabilities, each made an integer and clamped to \<open>[0, 100]\<close>, an absent,
  null or non-numeric one counting 0; \<^verbatim>\<open>max_gust_mph\<close> is the greatest of 0 and the
  periods' gusts, where a text gives its first embedded integer, a number is converted to
  float and truncated toward zero, and anything else gives 0.  The empty sequence gives
  \<open>{0, 0, 0}\<close>.  The function returns on every sequence whose descriptions are texts (or
  false values) and whose numeric gusts are finite.
\<close>

theorem summarize_hourly_result:
  "summarize_hourly [] = Inr \<lparr> thunder_hours = 0, max_pop = 0, max_gust_mph = 0 \<rparr> \<and>
   (list_all period_ok ps \<longrightarrow> (\<exists>r. summarize_hourly ps = Inr r)) \<and>
   (\<forall>r. summarize_hourly ps = Inr r \<longrightarrow>
      thunder_hours r = int (length (filter has_thunder_text ps)) \<and>
      max_pop r = Max (set (0 # map pop_value ps)) \<and>
      max_gust_mph r = Max (set (0 # map gust_value ps)))"
proof (intro conjI allI impI)
  show "summarize_hourly [] = Inr \<lparr> thunder_hours = 0, max_pop = 0, max_gust_mph = 0 \<rparr>"
    by (simp add: summarize_hourly_def)
next
  assume "list_all period_ok ps"
  then show "\<exists>r. summarize_hourly ps = Inr r"
    unfolding summarize_hourly_def by (rule periods_ok_loop)
next
  fix r
  assume "summarize_hourly ps = Inr r"
  then have r: "summarize_loop \<lparr> thunder_hours = 0, max_pop = 0, max_gust_mph = 0 \<rparr> ps = Inr r"
    by (simp add: summarize_hourly_def)
  from summarize_loop_result [OF r]
  show "thunder_hours r = int (length (filter has_thunder_text ps))"
    and "max_pop r = Max (set (0 # map pop_value ps))"
    and "max_gust_mph r = Max (set (0 # map gust_value ps))"
    by simp_all
qed

theorem summarize_hourly_result_witness:
  "list_all period_ok sample_periods \<and>
   (\<exists>r. summarize_hourly sample_periods = Inr r \<and>
      thunder_hours r = 2 \<and> max_pop r = 100 \<and> max_gust_mph r = 50)"
proof -
  note R = summarize_hourly_result [of sample_periods]
  from R sample_periods_ok obtain r where r: "summarize_hourly sample_periods = Inr r" by blast
  with R have "thunder_hours r = int (length (filter has_thunder_text sample_periods)) \<and>
      max_pop r = Max (set (0 # map pop_value sample_periods)) \<and>
      max_gust_mph r = Max (set (0 # map gust_value sample_periods))" by blast
  then have "thunder_hours r = 2 \<and> max_pop r = 100 \<and> max_gust_mph r = 50"
    by (simp only: sample_periods_values)
  with r sample_periods_ok show ?thesis by blast
qed

text \<open>
  Claim C5.  Every summary that \<^verbatim>\<open>summarize_hourly\<close> returns has \<open>thunder_hours \<ge> 0\<close>,
  \<open>0 \<le> max_pop \<le> 100\<close> and \<open>max_gust_mph \<ge> 0\<close>, whatever the precipitation and gust
  values are (negative, above 100, not numbers); and it does return unless a description
  is a true value that is not a text, or a numeric gust is not finite.
\<close>

theorem summarize_hourly_bounds:
  "case summarize_hourly ps of
     Inr r \<Rightarrow> 0 \<le> thunder_hours r \<and> 0 \<le> max_pop r \<and> max_pop r \<le> 100 \<and> 0 \<le> max_gust_mph r
   | Inl e \<Rightarrow> \<not> list_all period_ok ps"
proof (cases "summarize_hourly ps")
  case (Inl e)
  then show ?thesis
    using periods_ok_loop [of ps "\<lparr> thunder_hours = 0, max_pop = 0, max_gust_mph = 0 \<rparr>"]
    by (auto simp add: summarize_hourly_def)
next
  case (Inr r)
  then have r: "summarize_loop \<lparr> thunder_hours = 0, max_pop = 0, max_gust_mph = 0 \<rparr> ps = Inr r"
    by (simp add: summarize_hourly_def)
  note R = summarize_loop_result [OF r]
  have "0 \<le> thunder_hours r" using R by simp
  moreover have "0 \<le> max_pop r" using R by (simp add: Max_ge)
  moreover have "max_pop r \<le> 100"
  proof -
    have "Max (set (0 # map pop_value ps)) \<in> set (0 # map pop_value ps)" by (intro Max_in) simp_all
    then show ?thesis using R pop_value_range by auto
  qed
  moreover have "0 \<le> max_gust_mph r" using R by (simp add: Max_ge)
  ultimately show ?thesis using Inr by simp
qed

theorem summarize_hourly_bounds_witness:
  "\<exists>r. summarize_hourly odd_periods = Inr r \<and>
      0 \<le> thunder_hours r \<and> 0 \<le> max_pop r \<and> max_pop r \<le> 100 \<and> 0 \<le> max_gust_mph r"
  using summarize_hourly_bounds [of odd_periods] odd_periods_ok
  by (cases "summarize_hourly odd_periods") simp_all

section \<open>Properties of the alert flags\<close>

text \<open>
  Claim C8.  For every list of alert records, \<^verbatim>\<open>classify_tornado_alerts\<close> sets the warning
  flag exactly when the text of some record contains \<open>tornado warning\<close>, the watch flag
  exactly when the text of some record contains \<open>tornado watch\<close>, and the PDS flag exactly
  when the text of some record contains \<open>particularly dangerous situation\<close> or \<open>pds\<close>.  The
  text of a record is its event, headline and description, joined by single spaces as the
  f-string of the script joins them, in lower case.  The empty list gives three false
  flags, and a flag that is true for a list stays true when records are added before or
  after it.
\<close>

theorem classify_tornado_alerts_flags:
  "(has_warning (classify_tornado_alerts fr fs) \<longleftrightarrow>
      (\<exists>f\<in>set fs. py_in ''tornado warning'' (alert_text fr f))) \<and>
   (has_watch (classify_tornado_alerts fr fs) \<longleftrightarrow>
      (\<exists>f\<in>set fs. py_in ''tornado watch'' (alert_text fr f))) \<and>
   (has_pds (classify_tornado_alerts fr fs) \<longleftrightarrow>
      (\<exists>f\<in>set fs. py_in ''particularly dangerous situation'' (alert_text fr f)
                  \<or> py_in ''pds'' (alert_text fr f))) \<and>
   classify_tornado_alerts fr [] = \<lparr> has_watch = False, has_warning = False, has_pds = False \<rparr> \<and>
   (has_warning (classify_tornado_alerts fr fs) \<longrightarrow>
      has_warning (classify_tornado_alerts fr (fs @ gs)) \<and>
      has_warning (classify_tornado_alerts fr (gs @ fs))) \<and>
   (has_watch (classify_tornado_alerts fr fs) \<longrightarrow>
      has_watch (classify_tornado_alerts fr (fs @ gs)) \<and>
      has_watch (classify_tornado_alerts fr (gs @ fs))) \<and>
   (has_pds (classify_tornado_alerts fr fs) \<longrightarrow>
      has_pds (classify_tornado_alerts fr (fs @ gs)) \<and>
      has_pds (classify_tornado_alerts fr (gs @ fs)))"
  unfolding classify_tornado_alerts_def classify_fold by auto

theorem classify_tornado_alerts_flags_witness:
  "has_warning (classify_tornado_alerts any_float_text sample_alerts) \<and>
   \<not> has_watch (classify_tornado_alerts any_float_text sample_alerts) \<and>
   \<not> has_pds (classify_tornado_alerts any_float_text sample_alerts)"
  using classify_tornado_alerts_flags [of any_float_text sample_alerts]
  by (simp only: sample_alerts_text) simp

section \<open>Properties of the outlook resolvers\<close>

text \<open>
  Claim C6, as stated, fails: it has the label normalised by removing white space, and
  the script removes space characters only.  A label \<open>EN<tab>H\<close> resolves to \<open>none\<close>, where
  the claim gives \<open>ENH\<close>.
\<close>

theorem spc_category_counterexample:
  "get_spc_categorical (polygon [(''LABEL'', JStr [CHR ''E'', CHR ''N'', CHR 0x09, CHR ''H''])])
     = Inr None \<and>
   claimed_category [CHR ''E'', CHR ''N'', CHR 0x09, CHR ''H''] = Some ''ENH''"
  by code_simp

text \<open>
  Claim C6, amended.  The categorical resolver returns \<open>none\<close> when the query result has
  no matching polygon.  Otherwise it takes from the first polygon the first true value
  among the attributes \<open>LABEL\<close>, \<open>LABEL2\<close>, \<open>Type\<close> and \<open>label\<close>, uppercases it, removes its
  space characters (other white space is kept), and returns the first entry of \<open>TSTM\<close>,
  \<open>MRGL\<close>, \<open>SLGT\<close>, \<open>ENH\<close>, \<open>MDT\<close>, \<open>HIGH\<close> that occurs in the result, or \<open>none\<close> when no
  entry does.  The label \<open>Enhanced Risk (ENH)\<close> resolves to \<open>ENH\<close>.
\<close>

theorem get_spc_categorical_resolves:
  "(\<not> truthy (dict_get data ''features'' (JArr [])) \<longrightarrow> get_spc_categorical data = Inr None) \<and>
   (dict_get data ''features'' (JArr []) = JArr (JObj f # fs) \<and>
    dict_get f ''properties'' (JObj []) = JObj props \<and>
    label_attribute [''LABEL'', ''LABEL2'', ''Type'', ''label''] props = JStr label \<longrightarrow>
      get_spc_categorical data
        = Inr (find (\<lambda>v. py_in v (remove_spaces (upper label))) vocabulary)) \<and>
   get_spc_categorical (polygon [(''LABEL'', JStr ''Enhanced Risk (ENH)'')]) = Inr (Some ''ENH'')"
proof (intro conjI impI)
  assume "\<not> truthy (dict_get data ''features'' (JArr []))"
  then show "get_spc_categorical data = Inr None" by (simp add: get_spc_categorical_def)
next
  assume a: "dict_get data ''features'' (JArr []) = JArr (JObj f # fs) \<and>
    dict_get f ''properties'' (JObj []) = JObj props \<and>
    label_attribute [''LABEL'', ''LABEL2'', ''Type'', ''label''] props = JStr label"
  then have a1: "dict_get data ''features'' (JArr []) = JArr (JObj f # fs)" by simp
  from a have p: "feature_properties (JArr (JObj f # fs)) = Inr (JObj props)"
    by (simp add: feature_properties_dict)
  from a have l: "py_or (dict_get props ''LABEL'' JNull) (py_or (dict_get props ''LABEL2'' JNull)
       (py_or (dict_get props ''Type'' JNull) (py_or (dict_get props ''label'' JNull) (JStr []))))
       = JStr label"
    by (simp only: label_attribute_four)
  show "get_spc_categorical data = Inr (find (\<lambda>v. py_in v (remove_spaces (upper label))) vocabulary)"
    by (simp add: get_spc_categorical_def a1 p l match_category_find normalize_label_def)
next
  show "get_spc_categorical (polygon [(''LABEL'', JStr ''Enhanced Risk (ENH)'')]) = Inr (Some ''ENH'')"
    by code_simp
qed

theorem get_spc_categorical_resolves_witness:
  "get_spc_categorical (polygon [(''Type'', JStr ''Slight risk - sl gt'')]) = Inr (Some ''SLGT'') \<and>
   get_spc_categorical [(''features'', JArr [])] = Inr None"
proof -
  let ?props = "[(''Type'', JStr ''Slight risk - sl gt'')]"
  have 1: "dict_get (polygon ?props) ''features'' (JArr []) = JArr (JObj [(''properties'', JObj ?props)] # []) \<and>
    dict_get [(''properties'', JObj ?props)] ''properties'' (JObj []) = JObj ?props \<and>
    label_attribute [''LABEL'', ''LABEL2'', ''Type'', ''label''] ?props = JStr ''Slight risk - sl gt''"
    by code_simp
  have 2: "find (\<lambda>v. py_in v (remove_spaces (upper ''Slight risk - sl gt''))) vocabulary = Some ''SLGT''"
    by code_simp
  have 3: "\<not> truthy (dict_get [(''features'', JArr [])] ''features'' (JArr []))"
    by code_simp
  from get_spc_categorical_resolves [of "polygon ?props" "[(''properties'', JObj ?props)]" "[]" ?props
      "''Slight risk - sl gt''"] 1
  have "get_spc_categorical (polygon ?props)
      = Inr (find (\<lambda>v. py_in v (remove_spaces (upper ''Slight risk - sl gt''))) vocabulary)"
    by blast
  moreover from get_spc_categorical_resolves [of "[(''features'', JArr [])]"] 3
  have "get_spc_categorical [(''features'', JArr [])] = Inr None" by blast
  ultimately show ?thesis by (simp only: 2)
qed

text \<open>
  Claim C7, as stated, fails: it wants the percent sign immediately after the number, and
  the pattern of the script allows white space between them.  A polygon whose only
  attribute is the label \<open>5 %\<close> resolves to 5, where the claim finds no percentage.
\<close>

theorem spc_prob_counterexample:
  "get_spc_prob_tornado any_float_text (polygon [(''LABEL'', JStr ''5 %'')]) = Inr (Some 5) \<and>
   claimed_number_percent ''5 %'' = None"
  by code_simp

text \<open>
  Claim C7, amended.  The probabilistic resolver returns an absent value when the query
  result has no matching polygon.  Otherwise it searches the text of the first polygon's
  label (the first true value among \<open>LABEL\<close> and \<open>label\<close>) for a number followed, after
  optional white space, by a percent sign, and returns the integer of the leftmost one; if
  there is none it scans the texts of all attribute values of that polygon in their stored
  order and returns the integer of the first one found; if none is found anywhere, the
  result is absent.  The attribute set \<open>{"LABEL": "5%"}\<close> resolves to 5.
\<close>

theorem get_spc_prob_tornado_resolves:
  "(\<not> truthy (dict_get data ''features'' (JArr [])) \<longrightarrow> get_spc_prob_tornado fr data = Inr None) \<and>
   (dict_get data ''features'' (JArr []) = JArr (JObj f # fs) \<and>
    dict_get f ''properties'' (JObj []) = JObj props \<longrightarrow>
      get_spc_prob_tornado fr data
        = Inr (case first_number_percent (py_str fr (label_attribute [''LABEL'', ''label''] props)) of
                 Some n \<Rightarrow> Some n
               | None \<Rightarrow> first_number_percent_in (map (\<lambda>(k, v). py_str fr v) props))) \<and>
   get_spc_prob_tornado fr (polygon [(''LABEL'', JStr ''5%'')]) = Inr (Some 5)"
proof -
  have general: "get_spc_prob_tornado fr d
        = Inr (case first_number_percent (py_str fr (label_attribute [''LABEL'', ''label''] ps)) of
                 Some n \<Rightarrow> Some n
               | None \<Rightarrow> first_number_percent_in (map (\<lambda>(k, v). py_str fr v) ps))"
    if a1: "dict_get d ''features'' (JArr []) = JArr (JObj g # gs)"
      and a2: "dict_get g ''properties'' (JObj []) = JObj ps" for d g gs ps
  proof -
    have p: "feature_properties (JArr (JObj g # gs)) = Inr (JObj ps)"
      using a2 by (simp add: feature_properties_dict)
    have m: "py_str fr \<circ> snd = (\<lambda>(k, v). py_str fr v)"
      by auto
    show ?thesis
      by (simp add: get_spc_prob_tornado_def a1 p percent_in_eq first_percent_eq m
          label_attribute_two split: option.split)
  qed
  have example: "get_spc_prob_tornado fr (polygon [(''LABEL'', JStr ''5%'')]) = Inr (Some 5)"
  proof -
    have 1: "dict_get (polygon [(''LABEL'', JStr ''5%'')]) ''features'' (JArr [])
        = JArr (JObj [(''properties'', JObj [(''LABEL'', JStr ''5%'')])] # [])"
      by code_simp
    have 2: "dict_get [(''properties'', JObj [(''LABEL'', JStr ''5%'')])] ''properties'' (JObj [])
        = JObj [(''LABEL'', JStr ''5%'')]"
      by code_simp
    have 3: "label_attribute [''LABEL'', ''label''] [(''LABEL'', JStr ''5%'')] = JStr ''5%''"
      by code_simp
    have 4: "first_number_percent ''5%'' = Some 5" by code_simp
    show ?thesis unfolding general [OF 1 2] 3 py_str_def by (simp only: json.case 4 option.case)
  qed
  show ?thesis
  proof (intro conjI impI)
    assume "\<not> truthy (dict_get data ''features'' (JArr []))"
    then show "get_spc_prob_tornado fr data = Inr None" by (simp add: get_spc_prob_tornado_def)
  next
    assume "dict_get data ''features'' (JArr []) = JArr (JObj f # fs) \<and>
      dict_get f ''properties'' (JObj []) = JObj props"
    then have "dict_get data ''features'' (JArr []) = JArr (JObj f # fs)"
      and "dict_get f ''properties'' (JObj []) = JObj props" by blast+
    then show "get_spc_prob_tornado fr data
        = Inr (case first_number_percent (py_str fr (label_attribute [''LABEL'', ''label''] props)) of
                 Some n \<Rightarrow> Some n
               | None \<Rightarrow> first_number_percent_in (map (\<lambda>(k, v). py_str fr v) props))"
      by (rule general)
  next
    show "get_spc_prob_tornado fr (polygon [(''LABEL'', JStr ''5%'')]) = Inr (Some 5)"
      by (rule example)
  qed
qed

theorem get_spc_prob_tornado_resolves_witness:
  "get_spc_prob_tornado any_float_text
     (polygon [(''OBJECTID'', JInt 7), (''LABEL'', JStr ''Significant''), (''dn'', JStr ''10 % area'')])
     = Inr (Some 10) \<and>
   get_spc_prob_tornado any_float_text [(''features'', JArr [])] = Inr None"
proof -
  let ?props = "[(''OBJECTID'', JInt 7), (''LABEL'', JStr ''Significant''), (''dn'', JStr ''10 % area'')]"
  have 1: "dict_get (polygon ?props) ''features'' (JArr []) = JArr (JObj [(''properties'', JObj ?props)] # []) \<and>
    dict_get [(''properties'', JObj ?props)] ''properties'' (JObj []) = JObj ?props"
    by code_simp
  have 2: "(case first_number_percent (py_str any_float_text (label_attribute [''LABEL'', ''label''] ?props)) of
                 Some n \<Rightarrow> Some n
               | None \<Rightarrow> first_number_percent_in (map (\<lambda>(k, v). py_str any_float_text v) ?props))
       = Some 10"
    by code_simp
  have 3: "\<not> truthy (dict_get [(''features'', JArr [])] ''features'' (JArr []))"
    by code_simp
  from get_spc_prob_tornado_resolves [of "polygon ?props" any_float_text
      "[(''properties'', JObj ?props)]" "[]" ?props] 1
  have "get_spc_prob_tornado any_float_text (polygon ?props)
      = Inr (case first_number_percent (py_str any_float_text (label_attribute [''LABEL'', ''label''] ?props)) of
                 Some n \<Rightarrow> Some n
               | None \<Rightarrow> first_number_percent_in (map (\<lambda>(k, v). py_str any_float_text v) ?props))"
    by blast
  moreover from get_spc_prob_tornado_resolves [of "[(''features'', JArr [])]" any_float_text] 3
  have "get_spc_prob_tornado any_float_text [(''features'', JArr [])] = Inr None" by blast
  ultimately show ?thesis by (simp only: 2)
qed

end
